theory Spec2Isabelle
  imports Main "HOL-Library.Sublist" "HOL-Library.AList"
begin

section \<open>The controlled TypeScript system: data model\<close>

text \<open>
  The model follows \<^verbatim>\<open>createControlledTypeScriptSystem\<close> in
  \<^verbatim>\<open>ControlledTypeScriptSystem.ts\<close>. The closure's mutable variables become the fields of
  one state record, every operation takes the state and returns the new one. What the
  system does to its collaborators (a mutation sent to one of the two file-system
  providers, a call of a watcher callback) is appended to the field \<open>trace\<close>, so that the
  order of these calls can be stated. A callback is known by its identity only, as the
  source compares callbacks with \<^verbatim>\<open>!==\<close>.
\<close>

type_synonym path = string
type_synonym callback = nat

datatype FileWatcherEventKind = Created | Changed | Deleted

datatype FileSystemMode = Readonly | WriteTsbuildinfo | WriteReferences

datatype provider = PassiveFileSystem | RealFileSystem

datatype fsop =
    WriteFileOp path string
  | DeleteFileOp path
  | CreateDirOp path
  | UpdateTimesOp path nat nat

datatype error = ProviderError string

datatype event =
    ProviderCall provider fsop
  | FileWatcherCall callback path FileWatcherEventKind
  | DirectoryWatcherCall callback path

record stats =
  isFile :: bool
  isDirectory :: bool
  size :: nat
  mtime :: nat

text \<open>
  A JavaScript \<^verbatim>\<open>Map\<close> with string keys keeps its entries in insertion order: \<^verbatim>\<open>set\<close> on
  a present key replaces the value in place, on an absent key it appends the entry.
\<close>

type_synonym 'v jsmap = "(path \<times> 'v) list"

definition map_get :: "'v jsmap \<Rightarrow> path \<Rightarrow> 'v option" where
  "map_get m k = map_of m k"

definition map_has :: "'v jsmap \<Rightarrow> path \<Rightarrow> bool" where
  "map_has m k = (map_of m k \<noteq> None)"

definition map_set :: "'v jsmap \<Rightarrow> path \<Rightarrow> 'v \<Rightarrow> 'v jsmap" where
  "map_set m k v = AList.update k v m"

definition map_delete :: "'v jsmap \<Rightarrow> path \<Rightarrow> 'v jsmap" where
  "map_delete m k = AList.delete k m"

text \<open>
  A queued thunk is the closure \<^verbatim>\<open>() => callback(fileName)\<close>. Every closure is a fresh
  object, which \<open>thunkId\<close> stands for. \<open>sysWatcher\<close> is what one native subscription of
  \<^verbatim>\<open>watchDirectory\<close> owns: the callback it wraps, its local array \<^verbatim>\<open>queuedCallbacks\<close>, and
  whether \<^verbatim>\<open>sysWatcher.close()\<close> has been called.
\<close>

record thunk =
  thunkId :: nat
  thunkCallback :: callback
  thunkFileName :: path

record sysWatcher =
  sysClosed :: bool
  sysCallback :: callback
  queuedCallbacks :: "thunk list"

text \<open>An entry of the immediate queue of the event loop.\<close>

datatype immediate = TimeoutTask nat callback | ResolveTask

record sys =
  fileWatcherCallbacksMap :: "callback list jsmap"
  directoryWatcherCallbacksMap :: "callback list jsmap"
  recursiveDirectoryWatcherCallbacksMap :: "callback list jsmap"
  queuedWatcherCallbacksSet :: "thunk list"
  deletedFiles :: "bool jsmap"
  timeoutCallbacks :: "nat list"
  sysWatchers :: "sysWatcher list"
  nextThunk :: nat
  immediates :: "immediate list"
  nextImmediate :: nat
  ran :: "callback list"
  trace :: "event list"

text \<open>
  The collaborators that are not part of the file: path normalisation of the real provider,
  \<^verbatim>\<open>forwardSlash\<close>, Node's \<^verbatim>\<open>dirname\<close>, the status lookup of the passive provider, whether a
  provider raises on a mutation (given the calls made so far), and whether
  \<^verbatim>\<open>ts.sys.watchDirectory\<close> exists. They are parameters of the model.
\<close>

record host =
  normalizePath :: "path \<Rightarrow> path"
  forwardSlash :: "path \<Rightarrow> path"
  dirname :: "path \<Rightarrow> path"
  readStats :: "path \<Rightarrow> stats option"
  providerRaises :: "provider \<Rightarrow> fsop \<Rightarrow> event list \<Rightarrow> error option"
  hasSysWatchDirectory :: bool

definition ignoredPaths :: "string list" where
  "ignoredPaths = [''/node_modules/.'', ''/.git'', ''/.#'']"

definition includes_str :: "string \<Rightarrow> string \<Rightarrow> bool" where
  "includes_str s sub = sublist sub s"

definition startsWith :: "string \<Rightarrow> string \<Rightarrow> bool" where
  "startsWith s pre = prefix pre s"

definition endsWith :: "string \<Rightarrow> string \<Rightarrow> bool" where
  "endsWith s suf = suffix suf s"

text \<open>\<^verbatim>\<open>s[i] === c\<close>: an index out of range reads \<^verbatim>\<open>undefined\<close>, which equals no character.\<close>

definition charAtIs :: "string \<Rightarrow> nat \<Rightarrow> char \<Rightarrow> bool" where
  "charAtIs s i c = (i < length s \<and> s ! i = c)"

section \<open>Watcher registries\<close>

datatype mapName = FileWatchers | DirectoryWatchers | RecursiveDirectoryWatchers

fun getMap :: "mapName \<Rightarrow> sys \<Rightarrow> callback list jsmap" where
  "getMap FileWatchers s = fileWatcherCallbacksMap s"
| "getMap DirectoryWatchers s = directoryWatcherCallbacksMap s"
| "getMap RecursiveDirectoryWatchers s = recursiveDirectoryWatcherCallbacksMap s"

fun putMap :: "mapName \<Rightarrow> callback list jsmap \<Rightarrow> sys \<Rightarrow> sys" where
  "putMap FileWatchers m s = s\<lparr>fileWatcherCallbacksMap := m\<rparr>"
| "putMap DirectoryWatchers m s = s\<lparr>directoryWatcherCallbacksMap := m\<rparr>"
| "putMap RecursiveDirectoryWatchers m s = s\<lparr>recursiveDirectoryWatcherCallbacksMap := m\<rparr>"

text \<open>
  The object returned by \<^verbatim>\<open>createWatcher\<close>: its \<^verbatim>\<open>close\<close> captures the map, the normalised
  path and the callback.
\<close>

record watcher =
  watchersMap :: mapName
  normalizedPath :: path
  watcherCallback :: callback

definition getOrEmpty :: "callback list jsmap \<Rightarrow> path \<Rightarrow> callback list" where
  "getOrEmpty m k = (case map_get m k of Some ws \<Rightarrow> ws | None \<Rightarrow> [])"

definition createWatcher :: "host \<Rightarrow> mapName \<Rightarrow> path \<Rightarrow> callback \<Rightarrow> sys \<Rightarrow> watcher \<times> sys" where
  "createWatcher h wm p cb s =
     (let np = normalizePath h p;
          watchers = getOrEmpty (getMap wm s) np;
          nextWatchers = watchers @ [cb]
      in (\<lparr>watchersMap = wm, normalizedPath = np, watcherCallback = cb\<rparr>,
          putMap wm (map_set (getMap wm s) np nextWatchers) s))"

definition closeWatcher :: "watcher \<Rightarrow> sys \<Rightarrow> sys" where
  "closeWatcher w s =
     (let wm = watchersMap w;
          np = normalizedPath w;
          watchers = getOrEmpty (getMap wm s) np;
          nextWatchers = filter (\<lambda>x. x \<noteq> watcherCallback w) watchers
      in if length nextWatchers > 0
         then putMap wm (map_set (getMap wm s) np nextWatchers) s
         else putMap wm (map_delete (getMap wm s) np) s)"

section \<open>Notification dispatch\<close>

definition emit :: "event \<Rightarrow> sys \<Rightarrow> sys" where
  "emit e s = s\<lparr>trace := trace s @ [e]\<rparr>"

text \<open>\<^verbatim>\<open>callbacks.forEach(cb => cb(...))\<close> over an array: one call per element, in order.\<close>

fun forEachCall :: "(callback \<Rightarrow> event) \<Rightarrow> callback list \<Rightarrow> sys \<Rightarrow> sys" where
  "forEachCall f [] s = s"
| "forEachCall f (cb # cbs) s = forEachCall f cbs (emit (f cb) s)"

definition invokeFileWatchers :: "host \<Rightarrow> path \<Rightarrow> FileWatcherEventKind \<Rightarrow> sys \<Rightarrow> sys" where
  "invokeFileWatchers h p ev s =
     (let np = normalizePath h p
      in case map_get (fileWatcherCallbacksMap s) np of
           Some fileWatcherCallbacks \<Rightarrow>
             forEachCall (\<lambda>cb. FileWatcherCall cb (forwardSlash h np) ev) fileWatcherCallbacks s
         | None \<Rightarrow> s)"

definition isIgnored :: "host \<Rightarrow> path \<Rightarrow> bool" where
  "isIgnored h np = list_ex (\<lambda>ignoredPath. includes_str (forwardSlash h np) ignoredPath) ignoredPaths"

definition recursiveMatch :: "host \<Rightarrow> path \<Rightarrow> path \<Rightarrow> bool" where
  "recursiveMatch h watchedDirectory directory =
     (watchedDirectory = directory \<or>
      (startsWith directory watchedDirectory \<and>
       charAtIs (forwardSlash h directory) (length watchedDirectory) (CHR ''/'')))"

text \<open>\<^verbatim>\<open>recursiveDirectoryWatcherCallbacksMap.forEach\<close>: the entries in insertion order.\<close>

fun forEachRecursive :: "host \<Rightarrow> path \<Rightarrow> path \<Rightarrow> callback list jsmap \<Rightarrow> sys \<Rightarrow> sys" where
  "forEachRecursive h np directory [] s = s"
| "forEachRecursive h np directory ((watchedDirectory, cbs) # rest) s =
     forEachRecursive h np directory rest
       (if recursiveMatch h watchedDirectory directory
        then forEachCall (\<lambda>cb. DirectoryWatcherCall cb (forwardSlash h np)) cbs s
        else s)"

definition invokeDirectoryWatchers :: "host \<Rightarrow> path \<Rightarrow> sys \<Rightarrow> sys" where
  "invokeDirectoryWatchers h p s =
     (let np = normalizePath h p;
          directory = dirname h np
      in if isIgnored h np then s
         else
           let s1 = (case map_get (directoryWatcherCallbacksMap s) directory of
                       Some directoryWatcherCallbacks \<Rightarrow>
                         forEachCall (\<lambda>cb. DirectoryWatcherCall cb (forwardSlash h np))
                           directoryWatcherCallbacks s
                     | None \<Rightarrow> s)
           in forEachRecursive h np directory (recursiveDirectoryWatcherCallbacksMap s1) s1)"

definition getWriteFileSystem :: "FileSystemMode \<Rightarrow> path \<Rightarrow> provider" where
  "getWriteFileSystem mode p =
     (if mode = Readonly \<or> (mode = WriteTsbuildinfo \<and> \<not> endsWith p ''.tsbuildinfo'')
      then PassiveFileSystem else RealFileSystem)"

definition isDeleted :: "sys \<Rightarrow> path \<Rightarrow> bool" where
  "isDeleted s np = (map_get (deletedFiles s) np = Some True)"

definition invokeFileChanged :: "host \<Rightarrow> path \<Rightarrow> sys \<Rightarrow> sys" where
  "invokeFileChanged h p s =
     (let np = normalizePath h p
      in if isDeleted s np \<or> \<not> map_has (fileWatcherCallbacksMap s) np
         then
           let s1 = invokeFileWatchers h p Created s;
               s2 = invokeDirectoryWatchers h np s1
           in s2\<lparr>deletedFiles := map_set (deletedFiles s2) np False\<rparr>
         else invokeFileWatchers h p Changed s)"

definition invokeFileDeleted :: "host \<Rightarrow> path \<Rightarrow> sys \<Rightarrow> sys" where
  "invokeFileDeleted h p s =
     (let np = normalizePath h p
      in if \<not> isDeleted s np
         then
           let s1 = invokeFileWatchers h p Deleted s;
               s2 = invokeDirectoryWatchers h p s1
           in s2\<lparr>deletedFiles := map_set (deletedFiles s2) np True\<rparr>
         else s)"

section \<open>Mutating operations\<close>

text \<open>
  A provider call is recorded in the trace, then the provider either returns or raises.
  The source has no handler around the call, so a raise leaves the operation at once:
  the result \<open>Inl (e, s')\<close> is the error together with the state left behind.
\<close>

definition callProvider :: "host \<Rightarrow> provider \<Rightarrow> fsop \<Rightarrow> sys \<Rightarrow> (error \<times> sys) + sys" where
  "callProvider h pr op s =
     (let s1 = emit (ProviderCall pr op) s
      in case providerRaises h pr op (trace s) of
           Some e \<Rightarrow> Inl (e, s1)
         | None \<Rightarrow> Inr s1)"

definition writeFile :: "host \<Rightarrow> FileSystemMode \<Rightarrow> path \<Rightarrow> string \<Rightarrow> sys \<Rightarrow> (error \<times> sys) + sys" where
  "writeFile h mode p d s =
     (case callProvider h (getWriteFileSystem mode p) (WriteFileOp p d) s of
        Inl err \<Rightarrow> Inl err
      | Inr s1 \<Rightarrow> Inr (invokeFileChanged h p s1))"

definition deleteFile :: "host \<Rightarrow> FileSystemMode \<Rightarrow> path \<Rightarrow> sys \<Rightarrow> (error \<times> sys) + sys" where
  "deleteFile h mode p s =
     (case callProvider h (getWriteFileSystem mode p) (DeleteFileOp p) s of
        Inl err \<Rightarrow> Inl err
      | Inr s1 \<Rightarrow> Inr (invokeFileDeleted h p s1))"

definition createDirectory :: "host \<Rightarrow> FileSystemMode \<Rightarrow> path \<Rightarrow> sys \<Rightarrow> (error \<times> sys) + sys" where
  "createDirectory h mode p s =
     (case callProvider h (getWriteFileSystem mode p) (CreateDirOp p) s of
        Inl err \<Rightarrow> Inl err
      | Inr s1 \<Rightarrow> Inr (invokeDirectoryWatchers h p s1))"

definition setModifiedTime :: "host \<Rightarrow> FileSystemMode \<Rightarrow> path \<Rightarrow> nat \<Rightarrow> sys \<Rightarrow> (error \<times> sys) + sys" where
  "setModifiedTime h mode p date s =
     (case callProvider h (getWriteFileSystem mode p) (UpdateTimesOp p date date) s of
        Inl err \<Rightarrow> Inl err
      | Inr s1 \<Rightarrow> Inr (invokeFileWatchers h p Changed (invokeDirectoryWatchers h p s1)))"

section \<open>Read operations\<close>

definition getFileSize :: "host \<Rightarrow> path \<Rightarrow> nat" where
  "getFileSize h p = (case readStats h p of Some st \<Rightarrow> size st | None \<Rightarrow> 0)"

definition getModifiedTime :: "host \<Rightarrow> path \<Rightarrow> nat option" where
  "getModifiedTime h p = (case readStats h p of Some st \<Rightarrow> Some (mtime st) | None \<Rightarrow> None)"

definition fileExists :: "host \<Rightarrow> path \<Rightarrow> bool" where
  "fileExists h p = (case readStats h p of Some st \<Rightarrow> isFile st | None \<Rightarrow> False)"

section \<open>Watch registration\<close>

definition watchFile :: "host \<Rightarrow> path \<Rightarrow> callback \<Rightarrow> sys \<Rightarrow> watcher \<times> sys" where
  "watchFile h p cb s = createWatcher h FileWatchers p cb s"

text \<open>A JavaScript \<^verbatim>\<open>Set\<close> of objects, in insertion order.\<close>

definition set_add :: "'a list \<Rightarrow> 'a \<Rightarrow> 'a list" where
  "set_add xs x = (if x \<in> set xs then xs else xs @ [x])"

definition set_delete :: "'a list \<Rightarrow> 'a \<Rightarrow> 'a list" where
  "set_delete xs x = removeAll x xs"

text \<open>
  The handle returned by \<^verbatim>\<open>watchDirectory\<close>: the native subscription, when
  \<^verbatim>\<open>ts.sys.watchDirectory\<close> exists, and the watcher of the registry.
\<close>

record directoryWatcher =
  queuedWatcher :: "nat option"
  controlledWatcher :: watcher

definition watchDirectory ::
  "host \<Rightarrow> path \<Rightarrow> callback \<Rightarrow> bool \<Rightarrow> sys \<Rightarrow> directoryWatcher \<times> sys" where
  "watchDirectory h p cb recursive s =
     (let (qw, s1) =
            (if hasSysWatchDirectory h
             then (Some (length (sysWatchers s)),
                   s\<lparr>sysWatchers := sysWatchers s @
                        [\<lparr>sysClosed = False, sysCallback = cb, queuedCallbacks = []\<rparr>]\<rparr>)
             else (None, s));
          (cw, s2) =
            createWatcher h
              (if recursive then RecursiveDirectoryWatchers else DirectoryWatchers) p cb s1
      in (\<lparr>queuedWatcher = qw, controlledWatcher = cw\<rparr>, s2))"

text \<open>
  The function handed to \<^verbatim>\<open>ts.sys.watchDirectory\<close>, called by the native watcher \<open>w\<close> with a
  file name: it builds the thunk, adds it to the set and pushes it on the watcher's own
  array. A closed native watcher delivers nothing.
\<close>

definition sysDirectoryEvent :: "nat \<Rightarrow> path \<Rightarrow> sys \<Rightarrow> sys" where
  "sysDirectoryEvent w fileName s =
     (if w < length (sysWatchers s) \<and> \<not> sysClosed (sysWatchers s ! w)
      then
        let sw = sysWatchers s ! w;
            scopedCallback = \<lparr>thunkId = nextThunk s, thunkCallback = sysCallback sw,
                              thunkFileName = fileName\<rparr>
        in s\<lparr>queuedWatcherCallbacksSet := set_add (queuedWatcherCallbacksSet s) scopedCallback,
             sysWatchers := (sysWatchers s)
               [w := sw\<lparr>queuedCallbacks := queuedCallbacks sw @ [scopedCallback]\<rparr>],
             nextThunk := Suc (nextThunk s)\<rparr>
      else s)"

definition closeQueuedWatcher :: "nat \<Rightarrow> sys \<Rightarrow> sys" where
  "closeQueuedWatcher w s =
     (if w < length (sysWatchers s)
      then
        let sw = sysWatchers s ! w
        in s\<lparr>sysWatchers := (sysWatchers s)[w := sw\<lparr>sysClosed := True\<rparr>],
             queuedWatcherCallbacksSet :=
               foldl set_delete (queuedWatcherCallbacksSet s) (queuedCallbacks sw)\<rparr>
      else s)"

definition closeDirectoryWatcher :: "directoryWatcher \<Rightarrow> sys \<Rightarrow> sys" where
  "closeDirectoryWatcher dw s =
     closeWatcher (controlledWatcher dw)
       (case queuedWatcher dw of Some w \<Rightarrow> closeQueuedWatcher w s | None \<Rightarrow> s)"

section \<open>Flushing the queued directory changes\<close>

text \<open>
  A thunk calls its directory callback. What the consumer does inside the callback is not
  in the file; the part that matters to the flush is whether native events are delivered
  while it runs (re-entrant scheduling), which \<open>reaction\<close> gives as the list of
  (native watcher, file name) pairs delivered during a call.
\<close>

type_synonym reaction = "callback \<Rightarrow> path \<Rightarrow> (nat \<times> path) list"

definition callThunk :: "reaction \<Rightarrow> thunk \<Rightarrow> sys \<Rightarrow> sys" where
  "callThunk r t s =
     foldl (\<lambda>s' (w, fileName). sysDirectoryEvent w fileName s')
       (emit (DirectoryWatcherCall (thunkCallback t) (thunkFileName t)) s)
       (r (thunkCallback t) (thunkFileName t))"

text \<open>
  \<^verbatim>\<open>Set.prototype.forEach\<close> walks the entries by position and reads the size again at every
  step, so an entry added during the walk is visited by the same walk. The walk need not
  end; it is given fuel, and running out of fuel is \<open>None\<close>.
\<close>

fun forEachQueued :: "nat \<Rightarrow> reaction \<Rightarrow> nat \<Rightarrow> sys \<Rightarrow> sys option" where
  "forEachQueued 0 r i s = None"
| "forEachQueued (Suc fuel) r i s =
     (if i < length (queuedWatcherCallbacksSet s)
      then forEachQueued fuel r (Suc i) (callThunk r (queuedWatcherCallbacksSet s ! i) s)
      else Some s)"

definition invokeQueuedChanged :: "nat \<Rightarrow> reaction \<Rightarrow> sys \<Rightarrow> sys option" where
  "invokeQueuedChanged fuel r s =
     (case forEachQueued fuel r 0 s of
        None \<Rightarrow> None
      | Some s1 \<Rightarrow> Some (s1\<lparr>queuedWatcherCallbacksSet := []\<rparr>))"

section \<open>The virtual timer queue\<close>

text \<open>
  \<^verbatim>\<open>setImmediate\<close> appends to the immediate queue of the event loop, which runs its entries
  first in, first out. The timeout id is the immediate object; \<open>nextImmediate\<close> gives each a
  fresh identity.
\<close>

definition setTimeout :: "callback \<Rightarrow> sys \<Rightarrow> nat \<times> sys" where
  "setTimeout cb s =
     (let timeoutId = nextImmediate s
      in (timeoutId,
          s\<lparr>immediates := immediates s @ [TimeoutTask timeoutId cb],
            nextImmediate := Suc (nextImmediate s),
            timeoutCallbacks := set_add (timeoutCallbacks s) timeoutId\<rparr>))"

fun isTimeoutTask :: "nat \<Rightarrow> immediate \<Rightarrow> bool" where
  "isTimeoutTask i (TimeoutTask j cb) = (i = j)"
| "isTimeoutTask i ResolveTask = False"

definition clearTimeout :: "nat \<Rightarrow> sys \<Rightarrow> sys" where
  "clearTimeout timeoutId s =
     s\<lparr>immediates := filter (\<lambda>t. \<not> isTimeoutTask timeoutId t) (immediates s),
       timeoutCallbacks := set_delete (timeoutCallbacks s) timeoutId\<rparr>"

text \<open>
  The body of the immediate made by \<^verbatim>\<open>setTimeout\<close>: the callback runs, then the id leaves
  the set. \<open>schedules cb\<close> lists the callbacks that \<open>cb\<close> itself hands to \<^verbatim>\<open>setTimeout\<close>
  while it runs.
\<close>

definition runTimeout :: "(callback \<Rightarrow> callback list) \<Rightarrow> nat \<Rightarrow> callback \<Rightarrow> sys \<Rightarrow> sys" where
  "runTimeout schedules timeoutId cb s =
     (let s1 = foldl (\<lambda>s' cb'. snd (setTimeout cb' s')) (s\<lparr>ran := ran s @ [cb]\<rparr>) (schedules cb)
      in s1\<lparr>timeoutCallbacks := set_delete (timeoutCallbacks s1) timeoutId\<rparr>)"

text \<open>
  \<^verbatim>\<open>await new Promise((resolve) => setImmediate(resolve))\<close>: the loop of \<^verbatim>\<open>waitForQueued\<close> is
  suspended until the event loop reaches its \<^verbatim>\<open>resolve\<close> entry, running the entries before
  it on the way.
\<close>

fun awaitImmediate :: "nat \<Rightarrow> (callback \<Rightarrow> callback list) \<Rightarrow> sys \<Rightarrow> sys option" where
  "awaitImmediate 0 schedules s = None"
| "awaitImmediate (Suc fuel) schedules s =
     (case immediates s of
        [] \<Rightarrow> None
      | ResolveTask # rest \<Rightarrow> Some (s\<lparr>immediates := rest\<rparr>)
      | TimeoutTask timeoutId cb # rest \<Rightarrow>
          awaitImmediate fuel schedules (runTimeout schedules timeoutId cb (s\<lparr>immediates := rest\<rparr>)))"

fun waitForQueued :: "nat \<Rightarrow> (callback \<Rightarrow> callback list) \<Rightarrow> sys \<Rightarrow> sys option" where
  "waitForQueued 0 schedules s = None"
| "waitForQueued (Suc fuel) schedules s =
     (if length (timeoutCallbacks s) > 0
      then (case awaitImmediate fuel schedules (s\<lparr>immediates := immediates s @ [ResolveTask]\<rparr>) of
              None \<Rightarrow> None
            | Some s1 \<Rightarrow> waitForQueued fuel schedules s1)
      else Some s)"

section \<open>The closed forms of the dispatch, and sample hosts\<close>

definition stateOf :: "(error \<times> sys) + sys \<Rightarrow> sys" where
  "stateOf r = (case r of Inl (e, s) \<Rightarrow> s | Inr s \<Rightarrow> s)"

fun isProviderCall :: "event \<Rightarrow> bool" where
  "isProviderCall (ProviderCall pr op) = True"
| "isProviderCall (FileWatcherCall cb p ev) = False"
| "isProviderCall (DirectoryWatcherCall cb p) = False"

fun isDirectoryWatcherCall :: "event \<Rightarrow> bool" where
  "isDirectoryWatcherCall (DirectoryWatcherCall cb p) = True"
| "isDirectoryWatcherCall (ProviderCall pr op) = False"
| "isDirectoryWatcherCall (FileWatcherCall cb p ev) = False"

text \<open>The calls that \<open>invokeFileWatchers\<close> makes for the normalised path \<open>np\<close>.\<close>

definition fileNotifications :: "host \<Rightarrow> sys \<Rightarrow> path \<Rightarrow> FileWatcherEventKind \<Rightarrow> event list" where
  "fileNotifications h s np ev =
     map (\<lambda>cb. FileWatcherCall cb (forwardSlash h np) ev)
       (getOrEmpty (fileWatcherCallbacksMap s) np)"

definition recursiveNotifications :: "host \<Rightarrow> path \<Rightarrow> callback list jsmap \<Rightarrow> event list" where
  "recursiveNotifications h np m =
     concat (map (\<lambda>(watchedDirectory, cbs).
        if recursiveMatch h watchedDirectory (dirname h np)
        then map (\<lambda>cb. DirectoryWatcherCall cb (forwardSlash h np)) cbs else []) m)"

text \<open>The calls that \<open>invokeDirectoryWatchers\<close> makes for the normalised path \<open>np\<close>.\<close>

definition directoryNotifications :: "host \<Rightarrow> sys \<Rightarrow> path \<Rightarrow> event list" where
  "directoryNotifications h s np =
     (if isIgnored h np then []
      else map (\<lambda>cb. DirectoryWatcherCall cb (forwardSlash h np))
             (getOrEmpty (directoryWatcherCallbacksMap s) (dirname h np))
           @ recursiveNotifications h np (recursiveDirectoryWatcherCallbacksMap s))"

text \<open>The state right after construction: every map and set is empty.\<close>

definition emptySys :: sys where
  "emptySys = \<lparr>fileWatcherCallbacksMap = [], directoryWatcherCallbacksMap = [],
     recursiveDirectoryWatcherCallbacksMap = [], queuedWatcherCallbacksSet = [],
     deletedFiles = [], timeoutCallbacks = [], sysWatchers = [], nextThunk = 0,
     immediates = [], nextImmediate = 0, ran = [], trace = []\<rparr>"

text \<open>
  A host on POSIX paths, for concrete runs: paths are already normal, \<open>forwardSlash\<close> turns a
  backslash into a slash, \<open>dirname\<close> cuts the last component, no provider raises.
\<close>

definition posixDirname :: "path \<Rightarrow> path" where
  "posixDirname p =
     (let d = rev (drop 1 (dropWhile (\<lambda>c. c \<noteq> CHR ''/'') (rev p)))
      in if CHR ''/'' \<notin> set p then ''.'' else if d = [] then ''/'' else d)"

definition posixHost :: host where
  "posixHost = \<lparr>normalizePath = (\<lambda>p. p),
     forwardSlash = map (\<lambda>c. if c = CHR 0x5C then CHR ''/'' else c),
     dirname = posixDirname,
     readStats = (\<lambda>p. if p = ''/root/a'' then Some \<lparr>isFile = False, isDirectory = True, size = 4096, mtime = 17\<rparr>
                      else if p = ''/root/a/b.txt'' then Some \<lparr>isFile = True, isDirectory = False, size = 5, mtime = 23\<rparr>
                      else None),
     providerRaises = (\<lambda>pr op tr. None),
     hasSysWatchDirectory = True\<rparr>"

text \<open>The same host with a real provider that refuses every mutation.\<close>

definition failingHost :: host where
  "failingHost = posixHost\<lparr>providerRaises :=
     (\<lambda>pr op tr. if pr = RealFileSystem then Some (ProviderError ''EACCES'') else None)\<rparr>"

text \<open>
  A state reached by four registrations: a file watcher on \<^verbatim>\<open>/root/a/b.txt\<close>, a
  directory watcher on \<^verbatim>\<open>/root/a\<close>, a recursive directory watcher on \<^verbatim>\<open>/root\<close> and a
  directory watcher on \<^verbatim>\<open>/root\<close> that is not recursive. \<open>deletedSys\<close> is the same state
  with the file recorded as deleted.
\<close>

definition watchedSys :: sys where
  "watchedSys =
     snd (watchDirectory posixHost ''/root'' 4 False
       (snd (watchDirectory posixHost ''/root'' 3 True
         (snd (watchDirectory posixHost ''/root/a'' 2 False
           (snd (watchFile posixHost ''/root/a/b.txt'' 1 emptySys)))))))"

definition deletedSys :: sys where
  "deletedSys = watchedSys\<lparr>deletedFiles := [(''/root/a/b.txt'', True)]\<rparr>"

text \<open>The state after a write to that file in \<open>deletedSys\<close>.\<close>

definition rewrittenSys :: sys where
  "rewrittenSys = stateOf (writeFile posixHost Readonly ''/root/a/b.txt'' ''x'' deletedSys)"

text \<open>
  A state with watchers around an ignored path: a file watcher on \<^verbatim>\<open>/root/.git/index\<close>, a
  directory watcher on \<^verbatim>\<open>/root/.git\<close> and a recursive directory watcher on \<^verbatim>\<open>/root\<close>.
\<close>

definition gitSys :: sys where
  "gitSys =
     snd (watchDirectory posixHost ''/root'' 3 True
       (snd (watchDirectory posixHost ''/root/.git'' 2 False
         (snd (watchFile posixHost ''/root/.git/index'' 1 emptySys)))))"

text \<open>Every list of callbacks in the map has an element.\<close>

definition noEmptyEntries :: "callback list jsmap \<Rightarrow> bool" where
  "noEmptyEntries m = list_all (\<lambda>(k, cbs). cbs \<noteq> []) m"

text \<open>
  One callback registered twice on a path, and another once; \<open>firstWatcher\<close> is the handle
  of the first registration.
\<close>

definition twiceSys :: sys where
  "twiceSys = snd (watchFile posixHost ''/root/a/b.txt'' 8
     (snd (watchFile posixHost ''/root/a/b.txt'' 7
       (snd (watchFile posixHost ''/root/a/b.txt'' 7 emptySys)))))"

definition firstWatcher :: watcher where
  "firstWatcher = fst (watchFile posixHost ''/root/a/b.txt'' 7 emptySys)"

text \<open>
  \<open>sameOutside s s'\<close>: no callback was called between \<open>s\<close> and \<open>s'\<close> (the trace and the list of
  timer callbacks that ran are the same), and the deleted tracker and the timer queue are
  the same.
\<close>

definition sameOutside :: "sys \<Rightarrow> sys \<Rightarrow> bool" where
  "sameOutside s s' =
     (trace s' = trace s \<and> ran s' = ran s \<and> deletedFiles s' = deletedFiles s \<and>
      timeoutCallbacks s' = timeoutCallbacks s \<and> immediates s' = immediates s \<and>
      nextImmediate s' = nextImmediate s)"

text \<open>The thunks that the native subscription of a directory watcher has pushed on its own array.\<close>

definition ownThunks :: "directoryWatcher \<Rightarrow> sys \<Rightarrow> thunk list" where
  "ownThunks dw s =
     (case queuedWatcher dw of
        Some w \<Rightarrow> if w < length (sysWatchers s) then queuedCallbacks (sysWatchers s ! w) else []
      | None \<Rightarrow> [])"

text \<open>The map that \<^verbatim>\<open>watchDirectory\<close> registers in.\<close>

definition directoryMap :: "bool \<Rightarrow> mapName" where
  "directoryMap recursive = (if recursive then RecursiveDirectoryWatchers else DirectoryWatchers)"

text \<open>
  \<open>watchedSys\<close> after three native events, two of the recursive watcher of \<^verbatim>\<open>/root\<close> and one
  of the watcher of \<^verbatim>\<open>/root/a\<close>; \<open>recursiveHandle\<close> is the handle of the recursive watcher.
\<close>

definition queuedSys :: sys where
  "queuedSys =
     sysDirectoryEvent 1 ''/root/z''
       (sysDirectoryEvent 0 ''/root/a/y''
         (sysDirectoryEvent 1 ''/root/x'' watchedSys))"

definition recursiveHandle :: directoryWatcher where
  "recursiveHandle =
     fst (watchDirectory posixHost ''/root'' 3 True
       (snd (watchDirectory posixHost ''/root/a'' 2 False
         (snd (watchFile posixHost ''/root/a/b.txt'' 1 emptySys)))))"

text \<open>
  The call that a thunk makes; a consumer whose callback for \<^verbatim>\<open>/root/x\<close> makes the native
  watcher 0 deliver one more event while it runs; and a consumer that does no such thing.
\<close>

definition thunkCall :: "thunk \<Rightarrow> event" where
  "thunkCall t = DirectoryWatcherCall (thunkCallback t) (thunkFileName t)"

definition reentrantReaction :: reaction where
  "reentrantReaction cb fileName = (if fileName = ''/root/x'' then [(0, ''/root/a/new'')] else [])"

definition noReaction :: reaction where
  "noReaction cb fileName = []"

text \<open>
  The timeouts waiting in the immediate queue, as pairs of id and callback. The timer set
  is consistent with the queue when its ids are exactly the ids of the waiting timeouts,
  these are distinct and all below the next fresh id; \<open>runningConsistent X\<close> is the same
  while the timeouts with ids in \<open>X\<close> are running, out of the queue and still in the set.
\<close>

fun timeoutOf :: "immediate \<Rightarrow> (nat \<times> callback) list" where
  "timeoutOf (TimeoutTask i cb) = [(i, cb)]"
| "timeoutOf ResolveTask = []"

definition pendingTimeouts :: "sys \<Rightarrow> (nat \<times> callback) list" where
  "pendingTimeouts s = concat (map timeoutOf (immediates s))"

definition runningConsistent :: "nat set \<Rightarrow> sys \<Rightarrow> bool" where
  "runningConsistent X s =
     (set (timeoutCallbacks s) = X \<union> fst ` set (pendingTimeouts s) \<and>
      distinct (map fst (pendingTimeouts s)) \<and>
      X \<inter> fst ` set (pendingTimeouts s) = {} \<and>
      (\<forall>i \<in> X \<union> fst ` set (pendingTimeouts s). i < nextImmediate s))"

definition timersConsistent :: "sys \<Rightarrow> bool" where
  "timersConsistent s = runningConsistent {} s"

text \<open>
  What holds at every step of a drain that started in \<open>s0\<close>: each callback that was waiting
  in \<open>s0\<close>, and each callback scheduled by a callback that ran since, has run since or is
  waiting.
\<close>

definition drainInvariant :: "(callback \<Rightarrow> callback list) \<Rightarrow> sys \<Rightarrow> sys \<Rightarrow> bool" where
  "drainInvariant schedules s0 s =
     (timersConsistent s \<and> prefix (ran s0) (ran s) \<and>
      snd ` set (pendingTimeouts s0) \<subseteq>
        set (drop (length (ran s0)) (ran s)) \<union> snd ` set (pendingTimeouts s) \<and>
      (\<forall>cb \<in> set (drop (length (ran s0)) (ran s)).
         set (schedules cb) \<subseteq> set (drop (length (ran s0)) (ran s)) \<union> snd ` set (pendingTimeouts s)))"

text \<open>
  Two callbacks scheduled on the fresh system, the first of which schedules a third while it
  runs; \<open>drainedSys\<close> is the state when the wait for them resolves.
\<close>

definition chainSchedule :: "callback \<Rightarrow> callback list" where
  "chainSchedule cb = (if cb = 1 then [3] else [])"

definition timersSys :: sys where
  "timersSys = snd (setTimeout 2 (snd (setTimeout 1 emptySys)))"

definition drainedSys :: sys where
  "drainedSys = emptySys\<lparr>nextImmediate := 3, ran := [1, 2, 3]\<rparr>"

section \<open>Properties of the dispatch\<close>

lemma forEachCall_eq: "forEachCall f cbs s = s\<lparr>trace := trace s @ map f cbs\<rparr>"
  by (induction cbs arbitrary: s) (simp_all add: emit_def)

lemma invokeFileWatchers_eq:
  "invokeFileWatchers h p ev s = s\<lparr>trace := trace s @ fileNotifications h s (normalizePath h p) ev\<rparr>"
  by (simp add: invokeFileWatchers_def fileNotifications_def getOrEmpty_def forEachCall_eq Let_def
      split: option.splits)

lemma forEachRecursive_eq:
  "forEachRecursive h np (dirname h np) m s = s\<lparr>trace := trace s @ recursiveNotifications h np m\<rparr>"
  by (induction m arbitrary: s) (auto simp: recursiveNotifications_def forEachCall_eq)

lemma invokeDirectoryWatchers_eq:
  "invokeDirectoryWatchers h p s = s\<lparr>trace := trace s @ directoryNotifications h s (normalizePath h p)\<rparr>"
  by (simp add: invokeDirectoryWatchers_def directoryNotifications_def getOrEmpty_def forEachCall_eq
      forEachRecursive_eq Let_def split: option.splits)

lemma fileNotifications_frame [simp]:
  "fileNotifications h (s\<lparr>trace := t\<rparr>) np ev = fileNotifications h s np ev"
  "fileNotifications h (s\<lparr>deletedFiles := d\<rparr>) np ev = fileNotifications h s np ev"
  by (simp_all add: fileNotifications_def)

lemma directoryNotifications_frame [simp]:
  "directoryNotifications h (s\<lparr>trace := t\<rparr>) np = directoryNotifications h s np"
  "directoryNotifications h (s\<lparr>deletedFiles := d\<rparr>) np = directoryNotifications h s np"
  by (simp_all add: directoryNotifications_def)

lemma isDeleted_frame [simp]: "isDeleted (s\<lparr>trace := t\<rparr>) np = isDeleted s np"
  by (simp add: isDeleted_def)

lemma invokeFileChanged_eq:
  "invokeFileChanged h p s =
     (let np = normalizePath h p
      in if isDeleted s np \<or> \<not> map_has (fileWatcherCallbacksMap s) np
         then s\<lparr>trace := trace s @ fileNotifications h s np Created
                              @ directoryNotifications h s (normalizePath h np),
                 deletedFiles := map_set (deletedFiles s) np False\<rparr>
         else s\<lparr>trace := trace s @ fileNotifications h s np Changed\<rparr>)"
  by (simp add: invokeFileChanged_def invokeFileWatchers_eq invokeDirectoryWatchers_eq Let_def)

lemma invokeFileDeleted_eq:
  "invokeFileDeleted h p s =
     (let np = normalizePath h p
      in if \<not> isDeleted s np
         then s\<lparr>trace := trace s @ fileNotifications h s np Deleted
                              @ directoryNotifications h s np,
                 deletedFiles := map_set (deletedFiles s) np True\<rparr>
         else s)"
  by (simp add: invokeFileDeleted_def invokeFileWatchers_eq invokeDirectoryWatchers_eq Let_def)

section \<open>Write routing\<close>

lemma notifications_not_provider [simp]:
  "filter isProviderCall (fileNotifications h s np ev) = []"
  "filter isProviderCall (directoryNotifications h s np) = []"
  by (auto simp: fileNotifications_def directoryNotifications_def recursiveNotifications_def
      filter_empty_conv split: if_splits)

lemma callProvider_eq:
  "callProvider h pr op s =
     (case providerRaises h pr op (trace s) of
        Some e \<Rightarrow> Inl (e, s\<lparr>trace := trace s @ [ProviderCall pr op]\<rparr>)
      | None \<Rightarrow> Inr (s\<lparr>trace := trace s @ [ProviderCall pr op]\<rparr>))"
  by (simp add: callProvider_def emit_def Let_def)

lemma writeFile_provider_calls:
  "filter isProviderCall (trace (stateOf (writeFile h mode p d s))) =
     filter isProviderCall (trace s) @ [ProviderCall (getWriteFileSystem mode p) (WriteFileOp p d)]"
  by (simp add: writeFile_def callProvider_eq stateOf_def invokeFileChanged_eq Let_def
      split: option.splits)

lemma deleteFile_provider_calls:
  "filter isProviderCall (trace (stateOf (deleteFile h mode p s))) =
     filter isProviderCall (trace s) @ [ProviderCall (getWriteFileSystem mode p) (DeleteFileOp p)]"
  by (simp add: deleteFile_def callProvider_eq stateOf_def invokeFileDeleted_eq Let_def
      split: option.splits)

lemma createDirectory_provider_calls:
  "filter isProviderCall (trace (stateOf (createDirectory h mode p s))) =
     filter isProviderCall (trace s) @ [ProviderCall (getWriteFileSystem mode p) (CreateDirOp p)]"
  by (simp add: createDirectory_def callProvider_eq stateOf_def invokeDirectoryWatchers_eq
      split: option.splits)

lemma setModifiedTime_provider_calls:
  "filter isProviderCall (trace (stateOf (setModifiedTime h mode p t s))) =
     filter isProviderCall (trace s) @ [ProviderCall (getWriteFileSystem mode p) (UpdateTimesOp p t t)]"
  by (simp add: setModifiedTime_def callProvider_eq stateOf_def invokeDirectoryWatchers_eq
      invokeFileWatchers_eq split: option.splits)

text \<open>
  Claim C2. The provider that receives a mutation is a function of the mode and the path
  alone: the real provider exactly in mode write-references, or in mode write-tsbuildinfo
  for a path that ends in \<^verbatim>\<open>.tsbuildinfo\<close>, the passive provider otherwise (so always in
  mode readonly). Each of \<open>writeFile\<close>, \<open>deleteFile\<close>, \<open>createDirectory\<close> and \<open>setModifiedTime\<close>
  makes exactly one provider call, to the provider routed for its own path.
\<close>

theorem write_routing:
  "(getWriteFileSystem mode p = RealFileSystem \<longleftrightarrow>
      mode = WriteReferences \<or> (mode = WriteTsbuildinfo \<and> endsWith p ''.tsbuildinfo''))
   \<and> (getWriteFileSystem mode p = PassiveFileSystem \<longleftrightarrow>
      mode = Readonly \<or> (mode = WriteTsbuildinfo \<and> \<not> endsWith p ''.tsbuildinfo''))
   \<and> filter isProviderCall (trace (stateOf (writeFile h mode p d s))) =
       filter isProviderCall (trace s) @ [ProviderCall (getWriteFileSystem mode p) (WriteFileOp p d)]
   \<and> filter isProviderCall (trace (stateOf (deleteFile h mode p s))) =
       filter isProviderCall (trace s) @ [ProviderCall (getWriteFileSystem mode p) (DeleteFileOp p)]
   \<and> filter isProviderCall (trace (stateOf (createDirectory h mode p s))) =
       filter isProviderCall (trace s) @ [ProviderCall (getWriteFileSystem mode p) (CreateDirOp p)]
   \<and> filter isProviderCall (trace (stateOf (setModifiedTime h mode p t s))) =
       filter isProviderCall (trace s) @ [ProviderCall (getWriteFileSystem mode p) (UpdateTimesOp p t t)]"
proof -
  have "getWriteFileSystem mode p = RealFileSystem \<longleftrightarrow>
      mode = WriteReferences \<or> (mode = WriteTsbuildinfo \<and> endsWith p ''.tsbuildinfo'')"
    by (cases mode) (simp_all add: getWriteFileSystem_def)
  moreover have "getWriteFileSystem mode p = PassiveFileSystem \<longleftrightarrow>
      mode = Readonly \<or> (mode = WriteTsbuildinfo \<and> \<not> endsWith p ''.tsbuildinfo'')"
    by (cases mode) (simp_all add: getWriteFileSystem_def)
  ultimately show ?thesis
    using writeFile_provider_calls deleteFile_provider_calls createDirectory_provider_calls
      setModifiedTime_provider_calls by blast
qed

theorem write_routing_witness:
  "getWriteFileSystem WriteTsbuildinfo ''/root/a/x.tsbuildinfo'' = RealFileSystem
   \<and> filter isProviderCall (trace (stateOf
        (writeFile posixHost WriteTsbuildinfo ''/root/a/x.tsbuildinfo'' ''{}'' emptySys))) =
      [ProviderCall RealFileSystem (WriteFileOp ''/root/a/x.tsbuildinfo'' ''{}'')]
   \<and> filter isProviderCall (trace (stateOf
        (deleteFile posixHost WriteTsbuildinfo ''/root/a/x.tsbuildinfo'' emptySys))) =
      [ProviderCall RealFileSystem (DeleteFileOp ''/root/a/x.tsbuildinfo'')]"
proof -
  have e: "endsWith ''/root/a/x.tsbuildinfo'' ''.tsbuildinfo''"
    by (simp add: endsWith_def suffix_to_prefix)
  have t: "trace emptySys = []"
    by (simp add: emptySys_def)
  show ?thesis
    using write_routing [of WriteTsbuildinfo "''/root/a/x.tsbuildinfo''" posixHost "''{}''" emptySys 0] e t
    by simp
qed

section \<open>Writes\<close>

lemma map_get_set [simp]: "map_get (map_set m k v) k' = (if k' = k then Some v else map_get m k')"
  by (simp add: map_get_def map_set_def update_conv')

lemma writeFile_eq:
  "writeFile h mode p d s =
     (let pr = getWriteFileSystem mode p;
          s1 = s\<lparr>trace := trace s @ [ProviderCall pr (WriteFileOp p d)]\<rparr>
      in case providerRaises h pr (WriteFileOp p d) (trace s) of
           Some e \<Rightarrow> Inl (e, s1)
         | None \<Rightarrow> Inr (invokeFileChanged h p s1))"
  by (simp add: writeFile_def callProvider_eq Let_def split: option.splits)

lemma deleteFile_eq:
  "deleteFile h mode p s =
     (let pr = getWriteFileSystem mode p;
          s1 = s\<lparr>trace := trace s @ [ProviderCall pr (DeleteFileOp p)]\<rparr>
      in case providerRaises h pr (DeleteFileOp p) (trace s) of
           Some e \<Rightarrow> Inl (e, s1)
         | None \<Rightarrow> Inr (invokeFileDeleted h p s1))"
  by (simp add: deleteFile_def callProvider_eq Let_def split: option.splits)

text \<open>
  Claim C1, as the code has it. A write whose provider call returns first appears in the
  trace as that provider call, to the routed provider. It is then classified: created when
  the tracker records the normalised path as deleted or the file-watcher map has no entry
  for it, changed otherwise. A created write calls the file watchers of the path with
  \<open>Created\<close>, then the directory watchers, and stores \<open>False\<close> in the tracker. A changed write
  calls the file watchers with \<open>Changed\<close> and nothing else: no directory watcher, no store
  in the tracker. In both cases the tracker does not record the path as deleted afterwards
  and the file-watcher map is unchanged, so the next write to a watched path is a changed one.
\<close>

theorem writeFile_classification:
  assumes ok: "providerRaises h (getWriteFileSystem mode p) (WriteFileOp p d) (trace s) = None"
  shows "writeFile h mode p d s =
      Inr (if isDeleted s (normalizePath h p) \<or> \<not> map_has (fileWatcherCallbacksMap s) (normalizePath h p)
           then s\<lparr>trace := trace s @ [ProviderCall (getWriteFileSystem mode p) (WriteFileOp p d)]
                      @ fileNotifications h s (normalizePath h p) Created
                      @ directoryNotifications h s (normalizePath h (normalizePath h p)),
                   deletedFiles := map_set (deletedFiles s) (normalizePath h p) False\<rparr>
           else s\<lparr>trace := trace s @ [ProviderCall (getWriteFileSystem mode p) (WriteFileOp p d)]
                      @ fileNotifications h s (normalizePath h p) Changed\<rparr>)
    \<and> \<not> isDeleted (stateOf (writeFile h mode p d s)) (normalizePath h p)
    \<and> fileWatcherCallbacksMap (stateOf (writeFile h mode p d s)) = fileWatcherCallbacksMap s"
proof -
  let ?np = "normalizePath h p"
  let ?c = "isDeleted s ?np \<or> \<not> map_has (fileWatcherCallbacksMap s) ?np"
  have eq: "writeFile h mode p d s =
      Inr (if ?c
           then s\<lparr>trace := trace s @ [ProviderCall (getWriteFileSystem mode p) (WriteFileOp p d)]
                      @ fileNotifications h s ?np Created
                      @ directoryNotifications h s (normalizePath h ?np),
                   deletedFiles := map_set (deletedFiles s) ?np False\<rparr>
           else s\<lparr>trace := trace s @ [ProviderCall (getWriteFileSystem mode p) (WriteFileOp p d)]
                      @ fileNotifications h s ?np Changed\<rparr>)"
    using ok by (simp add: writeFile_eq invokeFileChanged_eq Let_def)
  have nd: "\<not> isDeleted (stateOf (writeFile h mode p d s)) ?np"
    unfolding eq by (simp add: stateOf_def isDeleted_def)
  have fm: "fileWatcherCallbacksMap (stateOf (writeFile h mode p d s)) = fileWatcherCallbacksMap s"
    unfolding eq by (simp add: stateOf_def)
  from eq nd fm show ?thesis by blast
qed

theorem writeFile_classification_witness:
  "writeFile posixHost Readonly ''/root/a/b.txt'' ''x'' deletedSys =
   Inr (deletedSys\<lparr>trace := [ProviderCall PassiveFileSystem (WriteFileOp ''/root/a/b.txt'' ''x''),
                             FileWatcherCall 1 ''/root/a/b.txt'' Created,
                             DirectoryWatcherCall 2 ''/root/a/b.txt'',
                             DirectoryWatcherCall 3 ''/root/a/b.txt''],
                   deletedFiles := [(''/root/a/b.txt'', False)]\<rparr>)
   \<and> writeFile posixHost Readonly ''/root/a/b.txt'' ''y'' rewrittenSys =
   Inr (rewrittenSys\<lparr>trace := trace rewrittenSys @
          [ProviderCall PassiveFileSystem (WriteFileOp ''/root/a/b.txt'' ''y''),
           FileWatcherCall 1 ''/root/a/b.txt'' Changed]\<rparr>)"
proof -
  let ?p = "''/root/a/b.txt''"
  have n: "normalizePath posixHost ?p = ?p"
    by (simp add: posixHost_def)
  have ok: "providerRaises posixHost (getWriteFileSystem Readonly ?p) (WriteFileOp ?p d) tr = None"
    for d tr
    by (simp add: posixHost_def)
  have c: "isDeleted deletedSys ?p"
    by code_simp
  have f: "fileNotifications posixHost deletedSys ?p Created = [FileWatcherCall 1 ?p Created]"
    by code_simp
  have d: "directoryNotifications posixHost deletedSys ?p =
      [DirectoryWatcherCall 2 ?p, DirectoryWatcherCall 3 ?p]"
    by code_simp
  have g: "getWriteFileSystem Readonly ?p = PassiveFileSystem"
    by (simp add: getWriteFileSystem_def)
  have m: "map_set (deletedFiles deletedSys) ?p False = [(?p, False)]"
    by code_simp
  have t: "trace deletedSys = []"
    by code_simp
  from writeFile_classification [of posixHost Readonly ?p "''x''" deletedSys, OF ok]
  have first: "writeFile posixHost Readonly ?p ''x'' deletedSys =
      Inr (deletedSys\<lparr>trace := [ProviderCall PassiveFileSystem (WriteFileOp ?p ''x''),
                             FileWatcherCall 1 ?p Created,
                             DirectoryWatcherCall 2 ?p, DirectoryWatcherCall 3 ?p],
                   deletedFiles := [(?p, False)]\<rparr>)"
    unfolding n f d g m t using c by simp
  have c2: "\<not> isDeleted rewrittenSys ?p" "map_has (fileWatcherCallbacksMap rewrittenSys) ?p"
    by code_simp+
  have f2: "fileNotifications posixHost rewrittenSys ?p Changed = [FileWatcherCall 1 ?p Changed]"
    by code_simp
  from writeFile_classification [of posixHost Readonly ?p "''y''" rewrittenSys, OF ok]
  have second: "writeFile posixHost Readonly ?p ''y'' rewrittenSys =
      Inr (rewrittenSys\<lparr>trace := trace rewrittenSys @
          [ProviderCall PassiveFileSystem (WriteFileOp ?p ''y''), FileWatcherCall 1 ?p Changed]\<rparr>)"
    unfolding n f2 g using c2 by simp
  from first second show ?thesis
    by simp
qed

text \<open>
  The claim as written fails on a path that has a file watcher and was never written: the
  first write is a changed one, the watcher is called with \<open>Changed\<close>, and neither directory
  watcher (callbacks 2 and 3) is called.
\<close>

theorem writeFile_counterexample:
  "writeFile posixHost Readonly ''/root/a/b.txt'' ''x'' watchedSys =
     Inr (watchedSys\<lparr>trace := [ProviderCall PassiveFileSystem (WriteFileOp ''/root/a/b.txt'' ''x''),
                               FileWatcherCall 1 ''/root/a/b.txt'' Changed]\<rparr>)
   \<and> FileWatcherCall 1 ''/root/a/b.txt'' Created
        \<notin> set (trace (stateOf (writeFile posixHost Readonly ''/root/a/b.txt'' ''x'' watchedSys)))
   \<and> DirectoryWatcherCall 2 ''/root/a/b.txt''
        \<notin> set (trace (stateOf (writeFile posixHost Readonly ''/root/a/b.txt'' ''x'' watchedSys)))"
  by code_simp

section \<open>Failures of a provider\<close>

text \<open>
  Claim C8. In a write and in a delete the provider call is the first thing the operation
  does: every watcher call of the operation comes after it in the trace. When the provider
  raises, the operation ends with that same error and the state is the one before the
  operation with the provider call alone added to the trace: no watcher is called, and the
  three watcher maps and the deleted tracker are unchanged.
\<close>

theorem provider_failure_no_notification:
  "(providerRaises h (getWriteFileSystem mode p) (WriteFileOp p d) (trace s) = Some e \<longrightarrow>
      writeFile h mode p d s =
        Inl (e, s\<lparr>trace := trace s @ [ProviderCall (getWriteFileSystem mode p) (WriteFileOp p d)]\<rparr>))
   \<and> (providerRaises h (getWriteFileSystem mode p) (DeleteFileOp p) (trace s) = Some e \<longrightarrow>
      deleteFile h mode p s =
        Inl (e, s\<lparr>trace := trace s @ [ProviderCall (getWriteFileSystem mode p) (DeleteFileOp p)]\<rparr>))
   \<and> (\<exists>ns. trace (stateOf (writeFile h mode p d s)) =
          trace s @ ProviderCall (getWriteFileSystem mode p) (WriteFileOp p d) # ns
        \<and> filter isProviderCall ns = [])
   \<and> (\<exists>ns. trace (stateOf (deleteFile h mode p s)) =
          trace s @ ProviderCall (getWriteFileSystem mode p) (DeleteFileOp p) # ns
        \<and> filter isProviderCall ns = [])"
proof -
  have w: "\<exists>ns. trace (stateOf (writeFile h mode p d s)) =
          trace s @ ProviderCall (getWriteFileSystem mode p) (WriteFileOp p d) # ns
        \<and> filter isProviderCall ns = []"
    by (cases "providerRaises h (getWriteFileSystem mode p) (WriteFileOp p d) (trace s)")
      (simp_all add: writeFile_eq invokeFileChanged_eq stateOf_def Let_def)
  have d: "\<exists>ns. trace (stateOf (deleteFile h mode p s)) =
          trace s @ ProviderCall (getWriteFileSystem mode p) (DeleteFileOp p) # ns
        \<and> filter isProviderCall ns = []"
    by (cases "providerRaises h (getWriteFileSystem mode p) (DeleteFileOp p) (trace s)")
      (simp_all add: deleteFile_eq invokeFileDeleted_eq stateOf_def Let_def)
  show ?thesis
    using w d by (simp add: writeFile_eq deleteFile_eq Let_def)
qed

theorem provider_failure_no_notification_witness:
  "writeFile failingHost WriteReferences ''/root/a/b.txt'' ''x'' deletedSys =
     Inl (ProviderError ''EACCES'',
          deletedSys\<lparr>trace := [ProviderCall RealFileSystem (WriteFileOp ''/root/a/b.txt'' ''x'')]\<rparr>)
   \<and> deleteFile failingHost WriteReferences ''/root/a/b.txt'' watchedSys =
     Inl (ProviderError ''EACCES'',
          watchedSys\<lparr>trace := [ProviderCall RealFileSystem (DeleteFileOp ''/root/a/b.txt'')]\<rparr>)"
proof -
  let ?p = "''/root/a/b.txt''"
  have g: "getWriteFileSystem WriteReferences ?p = RealFileSystem"
    by (simp add: getWriteFileSystem_def)
  have r: "providerRaises failingHost RealFileSystem op tr = Some (ProviderError ''EACCES'')" for op tr
    by (simp add: failingHost_def)
  have t: "trace deletedSys = []" "trace watchedSys = []"
    by code_simp+
  show ?thesis
    using provider_failure_no_notification [of failingHost WriteReferences ?p "''x''" deletedSys
        "ProviderError ''EACCES''"]
      provider_failure_no_notification [of failingHost WriteReferences ?p "''x''" watchedSys
        "ProviderError ''EACCES''"]
    unfolding g r t by simp
qed

section \<open>The ignore list\<close>

lemma directoryNotifications_ignored:
  "isIgnored h np \<Longrightarrow> directoryNotifications h s np = []"
  by (simp add: directoryNotifications_def)

lemma filter_dir_fileNotifications [simp]:
  "filter isDirectoryWatcherCall (fileNotifications h s np ev) = []"
  by (simp add: fileNotifications_def filter_empty_conv)

lemma createDirectory_eq:
  "createDirectory h mode p s =
     (let pr = getWriteFileSystem mode p;
          s1 = s\<lparr>trace := trace s @ [ProviderCall pr (CreateDirOp p)]\<rparr>
      in case providerRaises h pr (CreateDirOp p) (trace s) of
           Some e \<Rightarrow> Inl (e, s1)
         | None \<Rightarrow> Inr (invokeDirectoryWatchers h p s1))"
  by (simp add: createDirectory_def callProvider_eq Let_def split: option.splits)

lemma setModifiedTime_eq:
  "setModifiedTime h mode p t s =
     (let pr = getWriteFileSystem mode p;
          s1 = s\<lparr>trace := trace s @ [ProviderCall pr (UpdateTimesOp p t t)]\<rparr>
      in case providerRaises h pr (UpdateTimesOp p t t) (trace s) of
           Some e \<Rightarrow> Inl (e, s1)
         | None \<Rightarrow> Inr (invokeFileWatchers h p Changed (invokeDirectoryWatchers h p s1)))"
  by (simp add: setModifiedTime_def callProvider_eq Let_def split: option.splits)

lemma writeFile_ignored:
  assumes "isIgnored h (normalizePath h p)"
    and "normalizePath h (normalizePath h p) = normalizePath h p"
  shows "trace (stateOf (writeFile h mode p d s)) =
      trace s @ ProviderCall (getWriteFileSystem mode p) (WriteFileOp p d) #
        (if providerRaises h (getWriteFileSystem mode p) (WriteFileOp p d) (trace s) = None
         then fileNotifications h s (normalizePath h p)
           (if isDeleted s (normalizePath h p) \<or> \<not> map_has (fileWatcherCallbacksMap s) (normalizePath h p)
            then Created else Changed)
         else [])"
  using assms
  by (cases "providerRaises h (getWriteFileSystem mode p) (WriteFileOp p d) (trace s)")
    (simp_all add: writeFile_eq invokeFileChanged_eq stateOf_def Let_def directoryNotifications_ignored)

lemma deleteFile_ignored:
  assumes "isIgnored h (normalizePath h p)"
  shows "trace (stateOf (deleteFile h mode p s)) =
      trace s @ ProviderCall (getWriteFileSystem mode p) (DeleteFileOp p) #
        (if providerRaises h (getWriteFileSystem mode p) (DeleteFileOp p) (trace s) = None
            \<and> \<not> isDeleted s (normalizePath h p)
         then fileNotifications h s (normalizePath h p) Deleted
         else [])"
  using assms
  by (cases "providerRaises h (getWriteFileSystem mode p) (DeleteFileOp p) (trace s)")
    (simp_all add: deleteFile_eq invokeFileDeleted_eq stateOf_def Let_def directoryNotifications_ignored)

lemma createDirectory_ignored:
  assumes "isIgnored h (normalizePath h p)"
  shows "trace (stateOf (createDirectory h mode p s)) =
      trace s @ [ProviderCall (getWriteFileSystem mode p) (CreateDirOp p)]"
  using assms
  by (cases "providerRaises h (getWriteFileSystem mode p) (CreateDirOp p) (trace s)")
    (simp_all add: createDirectory_eq invokeDirectoryWatchers_eq stateOf_def Let_def
      directoryNotifications_ignored)

lemma setModifiedTime_ignored:
  assumes "isIgnored h (normalizePath h p)"
  shows "trace (stateOf (setModifiedTime h mode p t s)) =
      trace s @ ProviderCall (getWriteFileSystem mode p) (UpdateTimesOp p t t) #
        (if providerRaises h (getWriteFileSystem mode p) (UpdateTimesOp p t t) (trace s) = None
         then fileNotifications h s (normalizePath h p) Changed
         else [])"
  using assms
  by (cases "providerRaises h (getWriteFileSystem mode p) (UpdateTimesOp p t t) (trace s)")
    (simp_all add: setModifiedTime_eq invokeDirectoryWatchers_eq invokeFileWatchers_eq stateOf_def
      Let_def directoryNotifications_ignored)

text \<open>
  Claim C5. Let the normalised path, in its forward-slash form, contain one of the ignored
  substrings (\<open>isIgnored\<close>), on a host whose normalisation is idempotent. Then each of the
  four mutating operations calls no directory watcher at all, recursive or not, while the
  file watchers of the path are called exactly as the operation calls them on any path:
  with the classification of the write, with \<open>Deleted\<close> on a delete of a path not yet
  recorded as deleted, with \<open>Changed\<close> on a set-modified-time, and never on a
  create-directory.
\<close>

theorem ignored_paths_reach_no_directory_watcher:
  assumes ign: "isIgnored h (normalizePath h p)"
    and idem: "normalizePath h (normalizePath h p) = normalizePath h p"
  shows "trace (stateOf (writeFile h mode p d s)) =
      trace s @ ProviderCall (getWriteFileSystem mode p) (WriteFileOp p d) #
        (if providerRaises h (getWriteFileSystem mode p) (WriteFileOp p d) (trace s) = None
         then fileNotifications h s (normalizePath h p)
           (if isDeleted s (normalizePath h p) \<or> \<not> map_has (fileWatcherCallbacksMap s) (normalizePath h p)
            then Created else Changed)
         else [])
    \<and> trace (stateOf (deleteFile h mode p s)) =
      trace s @ ProviderCall (getWriteFileSystem mode p) (DeleteFileOp p) #
        (if providerRaises h (getWriteFileSystem mode p) (DeleteFileOp p) (trace s) = None
            \<and> \<not> isDeleted s (normalizePath h p)
         then fileNotifications h s (normalizePath h p) Deleted
         else [])
    \<and> trace (stateOf (createDirectory h mode p s)) =
      trace s @ [ProviderCall (getWriteFileSystem mode p) (CreateDirOp p)]
    \<and> trace (stateOf (setModifiedTime h mode p t s)) =
      trace s @ ProviderCall (getWriteFileSystem mode p) (UpdateTimesOp p t t) #
        (if providerRaises h (getWriteFileSystem mode p) (UpdateTimesOp p t t) (trace s) = None
         then fileNotifications h s (normalizePath h p) Changed
         else [])
    \<and> filter isDirectoryWatcherCall (trace (stateOf (writeFile h mode p d s))) =
           filter isDirectoryWatcherCall (trace s)
    \<and> filter isDirectoryWatcherCall (trace (stateOf (deleteFile h mode p s))) =
           filter isDirectoryWatcherCall (trace s)
    \<and> filter isDirectoryWatcherCall (trace (stateOf (createDirectory h mode p s))) =
           filter isDirectoryWatcherCall (trace s)
    \<and> filter isDirectoryWatcherCall (trace (stateOf (setModifiedTime h mode p t s))) =
           filter isDirectoryWatcherCall (trace s)"
  by (simp add: writeFile_ignored [OF ign idem] deleteFile_ignored [OF ign]
      createDirectory_ignored [OF ign] setModifiedTime_ignored [OF ign])

theorem ignored_paths_reach_no_directory_watcher_witness:
  "isIgnored posixHost (normalizePath posixHost ''/root/.git/index'')
   \<and> trace (stateOf (setModifiedTime posixHost Readonly ''/root/.git/index'' 5 gitSys)) =
       [ProviderCall PassiveFileSystem (UpdateTimesOp ''/root/.git/index'' 5 5),
        FileWatcherCall 1 ''/root/.git/index'' Changed]
   \<and> trace (stateOf (createDirectory posixHost Readonly ''/root/.git/index'' gitSys)) =
       [ProviderCall PassiveFileSystem (CreateDirOp ''/root/.git/index'')]"
proof -
  let ?p = "''/root/.git/index''"
  have n: "normalizePath posixHost q = q" for q
    by (simp add: posixHost_def)
  have ign: "isIgnored posixHost (normalizePath posixHost ?p)"
    by code_simp
  have idem: "normalizePath posixHost (normalizePath posixHost ?p) = normalizePath posixHost ?p"
    by (simp add: n)
  have r: "providerRaises posixHost pr op tr = None" for pr op tr
    by (simp add: posixHost_def)
  have g: "getWriteFileSystem Readonly ?p = PassiveFileSystem"
    by (simp add: getWriteFileSystem_def)
  have f: "fileNotifications posixHost gitSys ?p Changed = [FileWatcherCall 1 ?p Changed]"
    by code_simp
  have t: "trace gitSys = []"
    by code_simp
  show ?thesis
    using ignored_paths_reach_no_directory_watcher [OF ign idem, of Readonly "''x''" gitSys 5] ign
    unfolding n r g f t by simp
qed

section \<open>Which directory watchers are called\<close>

lemma recursiveNotifications_set:
  "DirectoryWatcherCall cb x \<in> set (recursiveNotifications h np m) \<longleftrightarrow>
     x = forwardSlash h np \<and>
     (\<exists>r cbs. (r, cbs) \<in> set m \<and> cb \<in> set cbs \<and> recursiveMatch h r (dirname h np))"
  by (induction m) (auto simp: recursiveNotifications_def)

lemma recursiveMatch_posix:
  assumes "forwardSlash h directory = directory"
  shows "recursiveMatch h r directory \<longleftrightarrow> r = directory \<or> startsWith directory (r @ ''/'')"
proof -
  have "(prefix r directory \<and> length r < length directory \<and> directory ! length r = CHR ''/'')
      \<longleftrightarrow> prefix (r @ ''/'') directory"
  proof
    assume a: "prefix r directory \<and> length r < length directory \<and> directory ! length r = CHR ''/''"
    then obtain z where z: "directory = r @ z"
      by (auto simp: prefix_def)
    with a have "z \<noteq> []" "z ! 0 = CHR ''/''"
      by (auto simp: nth_append)
    then obtain z' where "z = CHR ''/'' # z'"
      by (cases z) auto
    with z show "prefix (r @ ''/'') directory"
      by simp
  next
    assume "prefix (r @ ''/'') directory"
    then obtain z where "directory = r @ CHR ''/'' # z"
      by (auto simp: prefix_def)
    then show "prefix r directory \<and> length r < length directory \<and> directory ! length r = CHR ''/''"
      by (simp add: nth_append)
  qed
  then show ?thesis
    using assms by (auto simp: recursiveMatch_def startsWith_def charAtIs_def)
qed

text \<open>
  Claim C6. For a path that is not ignored, \<open>invokeDirectoryWatchers\<close> appends exactly the
  calls of \<open>directoryNotifications\<close>, and a directory callback is among them if and only if
  it is registered in the non-recursive map under the key equal to the parent directory of
  the changed path, or in an entry of the recursive map whose root equals the parent
  directory or is a prefix of it with a slash at the next position of the parent's
  forward-slash form. Where the parent directory is already in forward-slash form, the
  recursive test is: the root equals the parent, or the parent starts with the root
  followed by a slash.
\<close>

theorem directory_dispatch:
  assumes "\<not> isIgnored h (normalizePath h p)"
  shows "trace (invokeDirectoryWatchers h p s) =
      trace s @ directoryNotifications h s (normalizePath h p)
    \<and> (DirectoryWatcherCall cb x \<in> set (directoryNotifications h s (normalizePath h p)) \<longleftrightarrow>
         x = forwardSlash h (normalizePath h p) \<and>
         (cb \<in> set (getOrEmpty (directoryWatcherCallbacksMap s) (dirname h (normalizePath h p))) \<or>
          (\<exists>r cbs. (r, cbs) \<in> set (recursiveDirectoryWatcherCallbacksMap s) \<and> cb \<in> set cbs \<and>
             (r = dirname h (normalizePath h p) \<or>
              (startsWith (dirname h (normalizePath h p)) r \<and>
               charAtIs (forwardSlash h (dirname h (normalizePath h p))) (length r) (CHR ''/''))))))
    \<and> (forwardSlash h (dirname h (normalizePath h p)) = dirname h (normalizePath h p) \<longrightarrow>
         (recursiveMatch h r (dirname h (normalizePath h p)) \<longleftrightarrow>
            r = dirname h (normalizePath h p) \<or> startsWith (dirname h (normalizePath h p)) (r @ ''/'')))"
proof -
  have "DirectoryWatcherCall cb x \<in> set (directoryNotifications h s (normalizePath h p)) \<longleftrightarrow>
         x = forwardSlash h (normalizePath h p) \<and>
         (cb \<in> set (getOrEmpty (directoryWatcherCallbacksMap s) (dirname h (normalizePath h p))) \<or>
          (\<exists>r cbs. (r, cbs) \<in> set (recursiveDirectoryWatcherCallbacksMap s) \<and> cb \<in> set cbs \<and>
             recursiveMatch h r (dirname h (normalizePath h p))))"
    using assms by (auto simp: directoryNotifications_def recursiveNotifications_set)
  then show ?thesis
    using recursiveMatch_posix [of h "dirname h (normalizePath h p)" r]
    by (simp add: invokeDirectoryWatchers_eq recursiveMatch_def)
qed

theorem directory_dispatch_witness:
  "trace (invokeDirectoryWatchers posixHost ''/root/a/b.txt'' watchedSys) =
     [DirectoryWatcherCall 2 ''/root/a/b.txt'', DirectoryWatcherCall 3 ''/root/a/b.txt'']
   \<and> DirectoryWatcherCall 3 ''/root/a/b.txt''
        \<in> set (directoryNotifications posixHost watchedSys ''/root/a/b.txt'')
   \<and> DirectoryWatcherCall 4 ''/root/a/b.txt''
        \<notin> set (directoryNotifications posixHost watchedSys ''/root/a/b.txt'')
   \<and> recursiveMatch posixHost ''/root'' ''/root/a''"
proof -
  let ?p = "''/root/a/b.txt''"
  have n: "normalizePath posixHost q = q" for q
    by (simp add: posixHost_def)
  have ign: "\<not> isIgnored posixHost (normalizePath posixHost ?p)"
    by code_simp
  have t: "trace watchedSys = []"
    by code_simp
  have d: "directoryNotifications posixHost watchedSys ?p =
      [DirectoryWatcherCall 2 ?p, DirectoryWatcherCall 3 ?p]"
    by code_simp
  have dn: "dirname posixHost ?p = ''/root/a''"
    by code_simp
  have fs: "forwardSlash posixHost ''/root/a'' = ''/root/a''"
    by code_simp
  have sw: "startsWith ''/root/a'' (''/root'' @ ''/'')"
    by (simp add: startsWith_def)
  from directory_dispatch [OF ign, of watchedSys 3 ?p "''/root''"]
  show ?thesis
    unfolding n t d dn fs using sw by simp
qed

section \<open>Reads\<close>

text \<open>
  Claim C7, as the code has it. Both reads look at the status lookup of the passive provider
  and at nothing else, and are total. Where the lookup finds nothing, the size is 0 and the
  modified time is absent. Where it finds an entry, file or not, the size and the modified
  time are those of the entry.
\<close>

theorem stats_reads:
  "(readStats h p = None \<longrightarrow> getFileSize h p = 0 \<and> getModifiedTime h p = None)
   \<and> (readStats h p = Some st \<longrightarrow>
        getFileSize h p = size st \<and> getModifiedTime h p = Some (mtime st))"
  by (simp add: getFileSize_def getModifiedTime_def)

theorem stats_reads_witness:
  "readStats posixHost ''/root/none'' = None
   \<and> getFileSize posixHost ''/root/none'' = 0
   \<and> getModifiedTime posixHost ''/root/none'' = None
   \<and> getFileSize posixHost ''/root/a/b.txt'' = 5
   \<and> getModifiedTime posixHost ''/root/a/b.txt'' = Some 23"
proof -
  have r: "readStats posixHost ''/root/none'' = None"
    by (simp add: posixHost_def)
  have f: "readStats posixHost ''/root/a/b.txt'' =
      Some \<lparr>isFile = True, isDirectory = False, size = 5, mtime = 23\<rparr>"
    by (simp add: posixHost_def)
  from stats_reads [of posixHost "''/root/none''"]
    stats_reads [of posixHost "''/root/a/b.txt''"
      "\<lparr>isFile = True, isDirectory = False, size = 5, mtime = 23\<rparr>"] r f
  show ?thesis
    by simp
qed

text \<open>
  The claim as written fails on a directory: \<^verbatim>\<open>/root/a\<close> does not resolve to a file, and
  its size and modified time are returned all the same.
\<close>

theorem directory_reads_counterexample:
  "\<not> fileExists posixHost ''/root/a''
   \<and> getFileSize posixHost ''/root/a'' = 4096
   \<and> getModifiedTime posixHost ''/root/a'' = Some 17"
  by (simp add: fileExists_def getFileSize_def getModifiedTime_def posixHost_def)

section \<open>Closing a watcher\<close>

lemma map_get_delete [simp]:
  "map_get (map_delete m k) k' = (if k' = k then None else map_get m k')"
  by (simp add: map_get_def map_delete_def delete_conv')

lemma getMap_putMap [simp]:
  "getMap wm (putMap wm m s) = m"
  by (cases wm) simp_all

lemma getMap_putMap_other [simp]:
  "wm' \<noteq> wm \<Longrightarrow> getMap wm' (putMap wm m s) = getMap wm' s"
  by (cases wm; cases wm') simp_all

lemma putMap_putMap [simp]: "putMap wm m (putMap wm m' s) = putMap wm m s"
  by (cases wm) simp_all

lemma putMap_getMap [simp]: "putMap wm (getMap wm s) s = s"
  by (cases wm) simp_all

lemma closeWatcher_lookup:
  "map_get (getMap (watchersMap w) (closeWatcher w s)) k =
     (if k = normalizedPath w
      then (if filter (\<lambda>x. x \<noteq> watcherCallback w) (getOrEmpty (getMap (watchersMap w) s) k) = []
            then None
            else Some (filter (\<lambda>x. x \<noteq> watcherCallback w) (getOrEmpty (getMap (watchersMap w) s) k)))
      else map_get (getMap (watchersMap w) s) k)"
  by (simp add: closeWatcher_def Let_def)

lemma noEmptyEntries_set: "cbs \<noteq> [] \<Longrightarrow> noEmptyEntries m \<Longrightarrow> noEmptyEntries (map_set m k cbs)"
  by (induction m) (auto simp: noEmptyEntries_def map_set_def)

lemma noEmptyEntries_delete: "noEmptyEntries m \<Longrightarrow> noEmptyEntries (map_delete m k)"
  by (induction m) (auto simp: noEmptyEntries_def map_delete_def)

lemma closeWatcher_noEmpty:
  "noEmptyEntries (getMap (watchersMap w) s) \<Longrightarrow>
   noEmptyEntries (getMap (watchersMap w) (closeWatcher w s))"
  by (auto simp: closeWatcher_def Let_def noEmptyEntries_set noEmptyEntries_delete)

lemma createWatcher_noEmpty:
  "noEmptyEntries (getMap wm s) \<Longrightarrow>
   noEmptyEntries (getMap wm (snd (createWatcher h wm p cb s)))"
  by (simp add: createWatcher_def Let_def noEmptyEntries_set)

lemma map_set_same: "map_get m k = Some v \<Longrightarrow> map_set m k v = m"
  by (simp add: map_get_def map_set_def update_triv)

lemma map_delete_absent: "map_get m k = None \<Longrightarrow> map_delete m k = m"
  by (simp add: map_get_def map_delete_def delete_id map_of_eq_None_iff)

lemma map_delete_idem: "map_delete (map_delete m k) k = map_delete m k"
  by (simp add: map_delete_def delete_idem)

lemma map_set_set: "map_set (map_set m k v) k v' = map_set m k v'"
  by (simp add: map_set_def)

lemma closeWatcher_twice:
  "closeWatcher w (closeWatcher w s) = closeWatcher w s"
proof -
  let ?m = "getMap (watchersMap w) s"
  let ?f = "filter (\<lambda>x. x \<noteq> watcherCallback w) (getOrEmpty ?m (normalizedPath w))"
  show ?thesis
  proof (cases "?f = []")
    case True
    then show ?thesis
      by (simp add: closeWatcher_def Let_def getOrEmpty_def map_delete_idem)
  next
    case False
    then show ?thesis
      by (simp add: closeWatcher_def Let_def getOrEmpty_def map_set_set)
  qed
qed

lemma closeWatcher_unregistered:
  assumes "watcherCallback w \<notin> set (getOrEmpty (getMap (watchersMap w) s) (normalizedPath w))"
    and "noEmptyEntries (getMap (watchersMap w) s)"
  shows "closeWatcher w s = s"
proof (cases "map_get (getMap (watchersMap w) s) (normalizedPath w)")
  case None
  then show ?thesis
    by (simp add: closeWatcher_def Let_def getOrEmpty_def map_delete_absent)
next
  case (Some cbs)
  then have "(normalizedPath w, cbs) \<in> set (getMap (watchersMap w) s)"
    by (simp add: map_get_def map_of_SomeD)
  with assms(2) have ne: "cbs \<noteq> []"
    by (auto simp: noEmptyEntries_def list_all_iff)
  from assms(1) Some have "filter (\<lambda>x. x \<noteq> watcherCallback w) cbs = cbs"
    by (auto simp: getOrEmpty_def filter_id_conv)
  with Some ne show ?thesis
    by (simp add: closeWatcher_def Let_def getOrEmpty_def map_set_same)
qed


text \<open>
  Claim C4, as the code has it. Closing a watcher filters the list of its path by identity
  of the callback, so every occurrence of the callback leaves the list and the other
  callbacks stay, in order. When nothing is left the entry of the path is deleted;
  registration and closing keep the map free of empty entries. Closing a second time
  changes nothing, and neither does closing a watcher whose callback is not in the list
  of its path.
\<close>

theorem closeWatcher_removes_callback:
  "map_get (getMap (watchersMap w) (closeWatcher w s)) k =
     (if k = normalizedPath w
      then (if filter (\<lambda>x. x \<noteq> watcherCallback w) (getOrEmpty (getMap (watchersMap w) s) k) = []
            then None
            else Some (filter (\<lambda>x. x \<noteq> watcherCallback w) (getOrEmpty (getMap (watchersMap w) s) k)))
      else map_get (getMap (watchersMap w) s) k)
   \<and> (noEmptyEntries (getMap (watchersMap w) s) \<longrightarrow>
        noEmptyEntries (getMap (watchersMap w) (closeWatcher w s))
        \<and> noEmptyEntries (getMap (watchersMap w) (snd (createWatcher h (watchersMap w) p cb s))))
   \<and> closeWatcher w (closeWatcher w s) = closeWatcher w s
   \<and> (watcherCallback w \<notin> set (getOrEmpty (getMap (watchersMap w) s) (normalizedPath w))
        \<and> noEmptyEntries (getMap (watchersMap w) s) \<longrightarrow> closeWatcher w s = s)"
  using closeWatcher_lookup [of w s k] closeWatcher_noEmpty [of w s]
    createWatcher_noEmpty [of "watchersMap w" s h p cb] closeWatcher_twice [of w s]
    closeWatcher_unregistered [of w s]
  by blast

theorem closeWatcher_removes_callback_witness:
  "noEmptyEntries (getMap FileWatchers twiceSys)
   \<and> map_get (fileWatcherCallbacksMap twiceSys) ''/root/a/b.txt'' = Some [7, 7, 8]
   \<and> map_get (fileWatcherCallbacksMap (closeWatcher firstWatcher twiceSys)) ''/root/a/b.txt'' = Some [8]
   \<and> noEmptyEntries (fileWatcherCallbacksMap (closeWatcher firstWatcher twiceSys))
   \<and> closeWatcher firstWatcher (closeWatcher firstWatcher twiceSys) = closeWatcher firstWatcher twiceSys"
proof -
  have w: "watchersMap firstWatcher = FileWatchers" "normalizedPath firstWatcher = ''/root/a/b.txt''"
    "watcherCallback firstWatcher = 7"
    by code_simp+
  have n: "noEmptyEntries (getMap FileWatchers twiceSys)"
    by code_simp
  have g: "getOrEmpty (fileWatcherCallbacksMap twiceSys) ''/root/a/b.txt'' = [7, 7, 8]"
    "map_get (fileWatcherCallbacksMap twiceSys) ''/root/a/b.txt'' = Some [7, 7, 8]"
    by code_simp+
  from closeWatcher_removes_callback [of firstWatcher twiceSys "''/root/a/b.txt''" posixHost "''/x''" 9]
  show ?thesis
    unfolding w using n g by simp
qed

text \<open>
  The claim as written fails when one callback is registered twice on a path: the first
  close removes both registrations and the entry of the path with them.
\<close>

theorem closeWatcher_counterexample:
  "fileWatcherCallbacksMap
     (snd (watchFile posixHost ''/root/a/b.txt'' 7
       (snd (watchFile posixHost ''/root/a/b.txt'' 7 emptySys)))) = [(''/root/a/b.txt'', [7, 7])]
   \<and> fileWatcherCallbacksMap
     (closeWatcher (fst (watchFile posixHost ''/root/a/b.txt'' 7 emptySys))
       (snd (watchFile posixHost ''/root/a/b.txt'' 7
         (snd (watchFile posixHost ''/root/a/b.txt'' 7 emptySys))))) = []"
  by code_simp

section \<open>What registration and closing leave alone\<close>

lemma getMap_frame [simp]:
  "getMap wm (s\<lparr>deletedFiles := d\<rparr>) = getMap wm s"
  "getMap wm (s\<lparr>timeoutCallbacks := t\<rparr>) = getMap wm s"
  "getMap wm (s\<lparr>sysWatchers := sw\<rparr>) = getMap wm s"
  "getMap wm (s\<lparr>queuedWatcherCallbacksSet := q\<rparr>) = getMap wm s"
  by (cases wm; simp)+

lemma putMap_frame:
  "putMap wm m (s\<lparr>deletedFiles := d\<rparr>) = (putMap wm m s)\<lparr>deletedFiles := d\<rparr>"
  "putMap wm m (s\<lparr>timeoutCallbacks := t\<rparr>) = (putMap wm m s)\<lparr>timeoutCallbacks := t\<rparr>"
  "putMap wm m (s\<lparr>sysWatchers := sw\<rparr>) = (putMap wm m s)\<lparr>sysWatchers := sw\<rparr>"
  "putMap wm m (s\<lparr>queuedWatcherCallbacksSet := q\<rparr>) = (putMap wm m s)\<lparr>queuedWatcherCallbacksSet := q\<rparr>"
  by (cases wm; simp)+

lemma putMap_fields [simp]:
  "trace (putMap wm m s) = trace s"
  "ran (putMap wm m s) = ran s"
  "deletedFiles (putMap wm m s) = deletedFiles s"
  "timeoutCallbacks (putMap wm m s) = timeoutCallbacks s"
  "immediates (putMap wm m s) = immediates s"
  "nextImmediate (putMap wm m s) = nextImmediate s"
  "queuedWatcherCallbacksSet (putMap wm m s) = queuedWatcherCallbacksSet s"
  "sysWatchers (putMap wm m s) = sysWatchers s"
  by (cases wm; simp)+

lemma createWatcher_frame:
  "sameOutside s (snd (createWatcher h wm p cb s))"
  "queuedWatcherCallbacksSet (snd (createWatcher h wm p cb s)) = queuedWatcherCallbacksSet s"
  "wm' \<noteq> wm \<Longrightarrow> getMap wm' (snd (createWatcher h wm p cb s)) = getMap wm' s"
  "map_get (getMap wm (snd (createWatcher h wm p cb s))) k =
     (if k = normalizePath h p then Some (getOrEmpty (getMap wm s) k @ [cb])
      else map_get (getMap wm s) k)"
  "createWatcher h wm p cb (s\<lparr>deletedFiles := d, timeoutCallbacks := t\<rparr>) =
     (fst (createWatcher h wm p cb s),
      (snd (createWatcher h wm p cb s))\<lparr>deletedFiles := d, timeoutCallbacks := t\<rparr>)"
  by (simp_all add: createWatcher_def sameOutside_def Let_def putMap_frame)

lemma closeWatcher_frame:
  "sameOutside s (closeWatcher w s)"
  "queuedWatcherCallbacksSet (closeWatcher w s) = queuedWatcherCallbacksSet s"
  "sysWatchers (closeWatcher w s) = sysWatchers s"
  "wm' \<noteq> watchersMap w \<Longrightarrow> getMap wm' (closeWatcher w s) = getMap wm' s"
  "closeWatcher w (s\<lparr>deletedFiles := d, timeoutCallbacks := t\<rparr>) =
     (closeWatcher w s)\<lparr>deletedFiles := d, timeoutCallbacks := t\<rparr>"
  by (simp_all add: closeWatcher_def sameOutside_def Let_def putMap_frame)

lemma foldl_set_delete: "foldl set_delete qs xs = filter (\<lambda>t. t \<notin> set xs) qs"
proof (induction xs arbitrary: qs)
  case Nil
  then show ?case by simp
next
  case (Cons x xs)
  have "filter (\<lambda>t. t \<notin> set xs) (removeAll x qs) = filter (\<lambda>t. t \<notin> set (x # xs)) qs"
    by (induction qs) auto
  with Cons show ?case
    by (simp add: set_delete_def)
qed

lemma closeQueuedWatcher_frame:
  "sameOutside s (closeQueuedWatcher w s)"
  "getMap wm (closeQueuedWatcher w s) = getMap wm s"
  "closeQueuedWatcher w (s\<lparr>deletedFiles := d, timeoutCallbacks := t\<rparr>) =
     (closeQueuedWatcher w s)\<lparr>deletedFiles := d, timeoutCallbacks := t\<rparr>"
  by (simp_all add: closeQueuedWatcher_def sameOutside_def Let_def)

lemma sameOutside_trans: "sameOutside s s' \<Longrightarrow> sameOutside s' s'' \<Longrightarrow> sameOutside s s''"
  by (simp add: sameOutside_def)

lemma sameOutside_refl: "sameOutside s s"
  by (simp add: sameOutside_def)

lemma closeDirectoryWatcher_frame:
  "sameOutside s (closeDirectoryWatcher dw s)"
  "queuedWatcherCallbacksSet (closeDirectoryWatcher dw s) =
     filter (\<lambda>t. t \<notin> set (ownThunks dw s)) (queuedWatcherCallbacksSet s)"
  "wm' \<noteq> watchersMap (controlledWatcher dw) \<Longrightarrow>
     getMap wm' (closeDirectoryWatcher dw s) = getMap wm' s"
  "closeDirectoryWatcher dw (s\<lparr>deletedFiles := d, timeoutCallbacks := t\<rparr>) =
     (closeDirectoryWatcher dw s)\<lparr>deletedFiles := d, timeoutCallbacks := t\<rparr>"
proof -
  show "sameOutside s (closeDirectoryWatcher dw s)"
    by (cases "queuedWatcher dw")
      (auto simp: closeDirectoryWatcher_def closeWatcher_frame(1)
        intro: sameOutside_trans [OF closeQueuedWatcher_frame(1) closeWatcher_frame(1)])
  show "queuedWatcherCallbacksSet (closeDirectoryWatcher dw s) =
     filter (\<lambda>t. t \<notin> set (ownThunks dw s)) (queuedWatcherCallbacksSet s)"
    by (cases "queuedWatcher dw")
      (simp_all add: closeDirectoryWatcher_def closeWatcher_frame(2) ownThunks_def
        closeQueuedWatcher_def foldl_set_delete Let_def)
  show "wm' \<noteq> watchersMap (controlledWatcher dw) \<Longrightarrow>
     getMap wm' (closeDirectoryWatcher dw s) = getMap wm' s"
    by (cases "queuedWatcher dw")
      (simp_all add: closeDirectoryWatcher_def closeWatcher_frame(4) closeQueuedWatcher_frame(2))
  show "closeDirectoryWatcher dw (s\<lparr>deletedFiles := d, timeoutCallbacks := t\<rparr>) =
     (closeDirectoryWatcher dw s)\<lparr>deletedFiles := d, timeoutCallbacks := t\<rparr>"
    by (cases "queuedWatcher dw")
      (simp_all add: closeDirectoryWatcher_def closeWatcher_frame(5) closeQueuedWatcher_frame(3))
qed

lemma closeDirectoryWatcher_lookup:
  "map_get (getMap (watchersMap (controlledWatcher dw)) (closeDirectoryWatcher dw s)) k =
     map_get (getMap (watchersMap (controlledWatcher dw)) (closeWatcher (controlledWatcher dw) s)) k"
  by (cases "queuedWatcher dw")
    (simp_all add: closeDirectoryWatcher_def closeWatcher_lookup closeQueuedWatcher_frame(2))

lemma watchDirectory_frame:
  "sameOutside s (snd (watchDirectory h p cb recursive s))"
  "queuedWatcherCallbacksSet (snd (watchDirectory h p cb recursive s)) = queuedWatcherCallbacksSet s"
  "wm' \<noteq> directoryMap recursive \<Longrightarrow> getMap wm' (snd (watchDirectory h p cb recursive s)) = getMap wm' s"
  "map_get (getMap (directoryMap recursive) (snd (watchDirectory h p cb recursive s))) k =
     (if k = normalizePath h p then Some (getOrEmpty (getMap (directoryMap recursive) s) k @ [cb])
      else map_get (getMap (directoryMap recursive) s) k)"
  "watchDirectory h p cb recursive (s\<lparr>deletedFiles := d, timeoutCallbacks := t\<rparr>) =
     (fst (watchDirectory h p cb recursive s),
      (snd (watchDirectory h p cb recursive s))\<lparr>deletedFiles := d, timeoutCallbacks := t\<rparr>)"
  by (simp_all add: watchDirectory_def directoryMap_def createWatcher_def sameOutside_def Let_def
      putMap_frame split: prod.splits)


text \<open>
  Claim C10. Registering a file or a directory watcher and closing either handle call no
  callback and leave the deleted tracker and the timer queue as they are (\<open>sameOutside\<close>);
  they do not read them either: the operation on a state with another tracker and another
  timer set gives the same result with that tracker and timer set. The maps other than the
  one of the watcher are unchanged; in the map of the watcher the entries of other paths
  are unchanged, and at the path of the watcher the callback is appended on registration
  and filtered out on closing, the other callbacks staying. The set of queued thunks is
  unchanged, except that closing a directory watcher removes the thunks of its own native
  subscription, and only those.
\<close>

theorem registration_frame:
  "sameOutside s (snd (watchFile h p cb s))
   \<and> sameOutside s (snd (watchDirectory h p cb recursive s))
   \<and> sameOutside s (closeWatcher w s)
   \<and> sameOutside s (closeDirectoryWatcher dw s)
   \<and> watchFile h p cb (s\<lparr>deletedFiles := d, timeoutCallbacks := t\<rparr>) =
       (fst (watchFile h p cb s), (snd (watchFile h p cb s))\<lparr>deletedFiles := d, timeoutCallbacks := t\<rparr>)
   \<and> watchDirectory h p cb recursive (s\<lparr>deletedFiles := d, timeoutCallbacks := t\<rparr>) =
       (fst (watchDirectory h p cb recursive s),
        (snd (watchDirectory h p cb recursive s))\<lparr>deletedFiles := d, timeoutCallbacks := t\<rparr>)
   \<and> closeWatcher w (s\<lparr>deletedFiles := d, timeoutCallbacks := t\<rparr>) =
       (closeWatcher w s)\<lparr>deletedFiles := d, timeoutCallbacks := t\<rparr>
   \<and> closeDirectoryWatcher dw (s\<lparr>deletedFiles := d, timeoutCallbacks := t\<rparr>) =
       (closeDirectoryWatcher dw s)\<lparr>deletedFiles := d, timeoutCallbacks := t\<rparr>
   \<and> (wm' \<noteq> FileWatchers \<longrightarrow> getMap wm' (snd (watchFile h p cb s)) = getMap wm' s)
   \<and> (wm' \<noteq> directoryMap recursive \<longrightarrow>
        getMap wm' (snd (watchDirectory h p cb recursive s)) = getMap wm' s)
   \<and> (wm' \<noteq> watchersMap w \<longrightarrow> getMap wm' (closeWatcher w s) = getMap wm' s)
   \<and> (wm' \<noteq> watchersMap (controlledWatcher dw) \<longrightarrow>
        getMap wm' (closeDirectoryWatcher dw s) = getMap wm' s)
   \<and> map_get (fileWatcherCallbacksMap (snd (watchFile h p cb s))) k =
       (if k = normalizePath h p then Some (getOrEmpty (fileWatcherCallbacksMap s) k @ [cb])
        else map_get (fileWatcherCallbacksMap s) k)
   \<and> map_get (getMap (directoryMap recursive) (snd (watchDirectory h p cb recursive s))) k =
       (if k = normalizePath h p then Some (getOrEmpty (getMap (directoryMap recursive) s) k @ [cb])
        else map_get (getMap (directoryMap recursive) s) k)
   \<and> map_get (getMap (watchersMap w) (closeWatcher w s)) k =
       (if k = normalizedPath w
        then (if filter (\<lambda>x. x \<noteq> watcherCallback w) (getOrEmpty (getMap (watchersMap w) s) k) = []
              then None
              else Some (filter (\<lambda>x. x \<noteq> watcherCallback w) (getOrEmpty (getMap (watchersMap w) s) k)))
        else map_get (getMap (watchersMap w) s) k)
   \<and> map_get (getMap (watchersMap (controlledWatcher dw)) (closeDirectoryWatcher dw s)) k =
       map_get (getMap (watchersMap (controlledWatcher dw)) (closeWatcher (controlledWatcher dw) s)) k
   \<and> queuedWatcherCallbacksSet (snd (watchFile h p cb s)) = queuedWatcherCallbacksSet s
   \<and> queuedWatcherCallbacksSet (snd (watchDirectory h p cb recursive s)) = queuedWatcherCallbacksSet s
   \<and> queuedWatcherCallbacksSet (closeWatcher w s) = queuedWatcherCallbacksSet s
   \<and> queuedWatcherCallbacksSet (closeDirectoryWatcher dw s) =
       filter (\<lambda>t. t \<notin> set (ownThunks dw s)) (queuedWatcherCallbacksSet s)"
proof -
  have f: "map_get (fileWatcherCallbacksMap (snd (watchFile h p cb s))) k =
       (if k = normalizePath h p then Some (getOrEmpty (fileWatcherCallbacksMap s) k @ [cb])
        else map_get (fileWatcherCallbacksMap s) k)"
    using createWatcher_frame(4) [of FileWatchers h p cb s k] by (simp add: watchFile_def)
  show ?thesis
    unfolding watchFile_def [of h p cb "s\<lparr>deletedFiles := d, timeoutCallbacks := t\<rparr>"]
    using f
    by (simp add: createWatcher_frame closeWatcher_frame watchDirectory_frame
        closeDirectoryWatcher_frame closeWatcher_lookup closeDirectoryWatcher_lookup
        watchFile_def [of h p cb s])
qed

theorem registration_frame_witness:
  "queuedWatcherCallbacksSet queuedSys =
     [\<lparr>thunkId = 0, thunkCallback = 3, thunkFileName = ''/root/x''\<rparr>,
      \<lparr>thunkId = 1, thunkCallback = 2, thunkFileName = ''/root/a/y''\<rparr>,
      \<lparr>thunkId = 2, thunkCallback = 3, thunkFileName = ''/root/z''\<rparr>]
   \<and> queuedWatcherCallbacksSet (closeDirectoryWatcher recursiveHandle queuedSys) =
     [\<lparr>thunkId = 1, thunkCallback = 2, thunkFileName = ''/root/a/y''\<rparr>]
   \<and> directoryWatcherCallbacksMap (closeDirectoryWatcher recursiveHandle queuedSys) =
       directoryWatcherCallbacksMap queuedSys
   \<and> sameOutside queuedSys (closeDirectoryWatcher recursiveHandle queuedSys)
   \<and> directoryWatcherCallbacksMap (snd (watchFile posixHost ''/root/c'' 5 queuedSys)) =
       directoryWatcherCallbacksMap queuedSys
   \<and> sameOutside queuedSys (snd (watchFile posixHost ''/root/c'' 5 queuedSys))"
proof -
  have q: "queuedWatcherCallbacksSet queuedSys =
     [\<lparr>thunkId = 0, thunkCallback = 3, thunkFileName = ''/root/x''\<rparr>,
      \<lparr>thunkId = 1, thunkCallback = 2, thunkFileName = ''/root/a/y''\<rparr>,
      \<lparr>thunkId = 2, thunkCallback = 3, thunkFileName = ''/root/z''\<rparr>]"
    by code_simp
  have o: "ownThunks recursiveHandle queuedSys =
     [\<lparr>thunkId = 0, thunkCallback = 3, thunkFileName = ''/root/x''\<rparr>,
      \<lparr>thunkId = 2, thunkCallback = 3, thunkFileName = ''/root/z''\<rparr>]"
    by code_simp
  have m: "watchersMap (controlledWatcher recursiveHandle) = RecursiveDirectoryWatchers"
    by code_simp
  note f = registration_frame [where s = queuedSys and h = posixHost and p = "''/root/c''"
      and cb = 5 and recursive = True and w = "controlledWatcher recursiveHandle"
      and dw = recursiveHandle and d = "[]" and t = "[]" and wm' = DirectoryWatchers
      and k = "''/root''"]
  have dm: "directoryMap True = RecursiveDirectoryWatchers"
    by (simp add: directoryMap_def)
  from f have 1: "queuedWatcherCallbacksSet (closeDirectoryWatcher recursiveHandle queuedSys) =
       filter (\<lambda>t. t \<notin> set (ownThunks recursiveHandle queuedSys)) (queuedWatcherCallbacksSet queuedSys)"
    by (elim conjE)
  from f m have 2: "getMap DirectoryWatchers (closeDirectoryWatcher recursiveHandle queuedSys) =
       getMap DirectoryWatchers queuedSys"
    by simp
  from f have 3: "sameOutside queuedSys (closeDirectoryWatcher recursiveHandle queuedSys)"
    by (elim conjE)
  from f have 4: "getMap DirectoryWatchers (snd (watchFile posixHost ''/root/c'' 5 queuedSys)) =
       getMap DirectoryWatchers queuedSys"
    by simp
  from f have 5: "sameOutside queuedSys (snd (watchFile posixHost ''/root/c'' 5 queuedSys))"
    by (elim conjE)
  from 1 2 3 4 5 show ?thesis
    unfolding q o by simp
qed

section \<open>The flush\<close>

lemma sysDirectoryEvent_grows:
  "trace (sysDirectoryEvent w f s) = trace s"
  "prefix (queuedWatcherCallbacksSet s) (queuedWatcherCallbacksSet (sysDirectoryEvent w f s))"
  by (simp_all add: sysDirectoryEvent_def set_add_def Let_def)

lemma foldl_sysDirectoryEvent_grows:
  "trace (foldl (\<lambda>s' (w, f). sysDirectoryEvent w f s') s evs) = trace s
   \<and> prefix (queuedWatcherCallbacksSet s)
        (queuedWatcherCallbacksSet (foldl (\<lambda>s' (w, f). sysDirectoryEvent w f s') s evs))"
proof (induction evs arbitrary: s)
  case Nil
  then show ?case by simp
next
  case (Cons ev evs)
  obtain w f where ev: "ev = (w, f)"
    by (cases ev)
  from Cons.IH [of "sysDirectoryEvent w f s"]
    sysDirectoryEvent_grows [where w = w and f = f and s = s]
  show ?case
    unfolding ev by (auto intro: prefix_order.trans)
qed

lemma callThunk_grows:
  "trace (callThunk r t s) = trace s @ [thunkCall t]"
  "prefix (queuedWatcherCallbacksSet s) (queuedWatcherCallbacksSet (callThunk r t s))"
  using foldl_sysDirectoryEvent_grows
    [of "emit (DirectoryWatcherCall (thunkCallback t) (thunkFileName t)) s"
      "r (thunkCallback t) (thunkFileName t)"]
  by (simp_all add: callThunk_def thunkCall_def emit_def)

lemma forEachQueued_visits:
  "forEachQueued fuel r i s = Some s1 \<Longrightarrow> i \<le> length (queuedWatcherCallbacksSet s) \<Longrightarrow>
     prefix (queuedWatcherCallbacksSet s) (queuedWatcherCallbacksSet s1)
     \<and> trace s1 = trace s @ map thunkCall (drop i (queuedWatcherCallbacksSet s1))"
proof (induction fuel arbitrary: i s)
  case 0
  then show ?case by simp
next
  case (Suc fuel)
  let ?q = "queuedWatcherCallbacksSet s"
  show ?case
  proof (cases "i < length ?q")
    case False
    with Suc.prems show ?thesis by simp
  next
    case True
    let ?s2 = "callThunk r (?q ! i) s"
    let ?q2 = "queuedWatcherCallbacksSet ?s2"
    from True Suc.prems have run: "forEachQueued fuel r (Suc i) ?s2 = Some s1"
      by simp
    have p2: "prefix ?q ?q2"
      by (rule callThunk_grows)
    then have len: "Suc i \<le> length ?q2"
      using True by (auto simp: prefix_def)
    from Suc.IH [OF run len]
    have p1: "prefix ?q2 (queuedWatcherCallbacksSet s1)"
      and t1: "trace s1 = trace ?s2 @ map thunkCall (drop (Suc i) (queuedWatcherCallbacksSet s1))"
      by simp_all
    from p2 p1 have p: "prefix ?q (queuedWatcherCallbacksSet s1)"
      by (rule prefix_order.trans)
    then obtain zs where zs: "queuedWatcherCallbacksSet s1 = ?q @ zs"
      by (auto simp: prefix_def)
    with True have nth: "queuedWatcherCallbacksSet s1 ! i = ?q ! i"
      and lt: "i < length (queuedWatcherCallbacksSet s1)"
      by (simp_all add: nth_append)
    have "drop i (queuedWatcherCallbacksSet s1) = (?q ! i) # drop (Suc i) (queuedWatcherCallbacksSet s1)"
      using Cons_nth_drop_Suc [OF lt] nth by simp
    with t1 p show ?thesis
      by (simp add: callThunk_grows)
  qed
qed

lemma forEachQueued_plain:
  assumes "\<forall>t \<in> set (queuedWatcherCallbacksSet s). r (thunkCallback t) (thunkFileName t) = []"
    and "length (queuedWatcherCallbacksSet s) - i < fuel"
  shows "forEachQueued fuel r i s =
     Some (s\<lparr>trace := trace s @ map thunkCall (drop i (queuedWatcherCallbacksSet s))\<rparr>)"
  using assms
proof (induction fuel arbitrary: i s)
  case 0
  then show ?case by simp
next
  case (Suc fuel)
  let ?q = "queuedWatcherCallbacksSet s"
  show ?case
  proof (cases "i < length ?q")
    case False
    then show ?thesis by simp
  next
    case True
    then have r: "r (thunkCallback (?q ! i)) (thunkFileName (?q ! i)) = []"
      using Suc.prems(1) by simp
    then have c: "callThunk r (?q ! i) s = s\<lparr>trace := trace s @ [thunkCall (?q ! i)]\<rparr>"
      by (simp add: callThunk_def emit_def thunkCall_def)
    have "forEachQueued fuel r (Suc i) (s\<lparr>trace := trace s @ [thunkCall (?q ! i)]\<rparr>) =
        Some (s\<lparr>trace := trace s @ [thunkCall (?q ! i)] @ map thunkCall (drop (Suc i) ?q)\<rparr>)"
      using Suc.IH [of "s\<lparr>trace := trace s @ [thunkCall (?q ! i)]\<rparr>" "Suc i"] Suc.prems True
      by simp
    then show ?thesis
      using True c Cons_nth_drop_Suc [OF True, symmetric] by simp
  qed
qed

text \<open>
  Claim C3, as the code has it. When the flush returns, the trace has grown by the calls of
  the thunks that were in the set at the start, in insertion order, followed by the calls
  of the thunks added during the flush: the walk of the set visits every entry that is in
  the set when the walk ends. Then the set is cleared, so it is empty after the flush and
  nothing stays queued. When no callback adds a thunk, the flush returns with any fuel
  above the size of the set, having called exactly the thunks of the set.
\<close>

theorem invokeQueuedChanged_flush:
  "(invokeQueuedChanged fuel r s = Some s' \<longrightarrow>
      queuedWatcherCallbacksSet s' = []
      \<and> (\<exists>added. trace s' = trace s @ map thunkCall (queuedWatcherCallbacksSet s @ added)))
   \<and> (forEachQueued fuel r 0 s = Some s1 \<longrightarrow>
      prefix (queuedWatcherCallbacksSet s) (queuedWatcherCallbacksSet s1)
      \<and> trace s1 = trace s @ map thunkCall (queuedWatcherCallbacksSet s1))
   \<and> ((\<forall>t \<in> set (queuedWatcherCallbacksSet s). r (thunkCallback t) (thunkFileName t) = [])
        \<and> length (queuedWatcherCallbacksSet s) < fuel \<longrightarrow>
      invokeQueuedChanged fuel r s =
        Some (s\<lparr>trace := trace s @ map thunkCall (queuedWatcherCallbacksSet s),
                queuedWatcherCallbacksSet := []\<rparr>))"
proof -
  have a: "queuedWatcherCallbacksSet s' = []
      \<and> (\<exists>added. trace s' = trace s @ map thunkCall (queuedWatcherCallbacksSet s @ added))"
    if run: "invokeQueuedChanged fuel r s = Some s'"
  proof -
    from run obtain s2 where s2: "forEachQueued fuel r 0 s = Some s2"
      and s': "s' = s2\<lparr>queuedWatcherCallbacksSet := []\<rparr>"
      by (auto simp: invokeQueuedChanged_def split: option.splits)
    from forEachQueued_visits [OF s2]
    have "prefix (queuedWatcherCallbacksSet s) (queuedWatcherCallbacksSet s2)"
      and t: "trace s2 = trace s @ map thunkCall (queuedWatcherCallbacksSet s2)"
      by simp_all
    then obtain added where "queuedWatcherCallbacksSet s2 = queuedWatcherCallbacksSet s @ added"
      by (auto simp: prefix_def)
    with t s' show ?thesis
      by auto
  qed
  have b: "prefix (queuedWatcherCallbacksSet s) (queuedWatcherCallbacksSet s1)
      \<and> trace s1 = trace s @ map thunkCall (queuedWatcherCallbacksSet s1)"
    if "forEachQueued fuel r 0 s = Some s1"
    using forEachQueued_visits [OF that] by simp
  have c: "invokeQueuedChanged fuel r s =
        Some (s\<lparr>trace := trace s @ map thunkCall (queuedWatcherCallbacksSet s),
                queuedWatcherCallbacksSet := []\<rparr>)"
    if "\<forall>t \<in> set (queuedWatcherCallbacksSet s). r (thunkCallback t) (thunkFileName t) = []"
      and "length (queuedWatcherCallbacksSet s) < fuel"
    using forEachQueued_plain [of s r 0 fuel] that by (simp add: invokeQueuedChanged_def)
  from a b c show ?thesis
    by blast
qed

theorem invokeQueuedChanged_flush_witness:
  "invokeQueuedChanged 4 noReaction queuedSys =
     Some (queuedSys\<lparr>trace := [DirectoryWatcherCall 3 ''/root/x'',
                               DirectoryWatcherCall 2 ''/root/a/y'',
                               DirectoryWatcherCall 3 ''/root/z''],
                     queuedWatcherCallbacksSet := []\<rparr>)"
proof -
  have q: "queuedWatcherCallbacksSet queuedSys =
     [\<lparr>thunkId = 0, thunkCallback = 3, thunkFileName = ''/root/x''\<rparr>,
      \<lparr>thunkId = 1, thunkCallback = 2, thunkFileName = ''/root/a/y''\<rparr>,
      \<lparr>thunkId = 2, thunkCallback = 3, thunkFileName = ''/root/z''\<rparr>]"
    by code_simp
  have t: "trace queuedSys = []"
    by code_simp
  from invokeQueuedChanged_flush [of 4 noReaction queuedSys]
  show ?thesis
    unfolding q t by (simp add: noReaction_def thunkCall_def)
qed

text \<open>
  The claim as written fails when a thunk is added during the flush: the thunk for
  \<^verbatim>\<open>/root/a/new\<close>, added while the first thunk runs, is called in the same flush, and the
  set is empty afterwards.
\<close>

theorem invokeQueuedChanged_counterexample:
  "map_option trace (invokeQueuedChanged 5 reentrantReaction queuedSys) =
     Some [DirectoryWatcherCall 3 ''/root/x'', DirectoryWatcherCall 2 ''/root/a/y'',
           DirectoryWatcherCall 3 ''/root/z'', DirectoryWatcherCall 2 ''/root/a/new'']
   \<and> map_option queuedWatcherCallbacksSet (invokeQueuedChanged 5 reentrantReaction queuedSys) =
     Some []"
  by code_simp

section \<open>Draining the timer queue\<close>

lemma setTimeout_fields:
  "pendingTimeouts (snd (setTimeout cb s)) = pendingTimeouts s @ [(nextImmediate s, cb)]"
  "ran (snd (setTimeout cb s)) = ran s"
  "nextImmediate (snd (setTimeout cb s)) = Suc (nextImmediate s)"
  "set (timeoutCallbacks (snd (setTimeout cb s))) = insert (nextImmediate s) (set (timeoutCallbacks s))"
  by (auto simp: setTimeout_def pendingTimeouts_def set_add_def Let_def)

lemma setTimeout_consistent:
  assumes "runningConsistent X s"
  shows "runningConsistent X (snd (setTimeout cb s))"
proof -
  from assms have lt: "\<forall>i \<in> X \<union> fst ` set (pendingTimeouts s). i < nextImmediate s"
    by (simp add: runningConsistent_def)
  then have fresh: "nextImmediate s \<notin> X \<union> fst ` set (pendingTimeouts s)"
    by blast
  with assms lt show ?thesis
    unfolding runningConsistent_def setTimeout_fields
    by (auto simp: less_Suc_eq)
qed

lemma scheduleAll:
  assumes "runningConsistent X s"
  shows "runningConsistent X (foldl (\<lambda>s' cb'. snd (setTimeout cb' s')) s cbs)
    \<and> ran (foldl (\<lambda>s' cb'. snd (setTimeout cb' s')) s cbs) = ran s
    \<and> map snd (pendingTimeouts (foldl (\<lambda>s' cb'. snd (setTimeout cb' s')) s cbs)) =
        map snd (pendingTimeouts s) @ cbs"
  using assms
proof (induction cbs arbitrary: s)
  case Nil
  then show ?case by simp
next
  case (Cons cb cbs)
  from Cons.IH [OF setTimeout_consistent [OF Cons.prems, of cb]]
  show ?case
    by (simp add: setTimeout_fields)
qed

lemma runTimeout_step:
  assumes c: "timersConsistent s" and i: "immediates s = TimeoutTask i cb # rest"
  shows "timersConsistent (runTimeout sch i cb (s\<lparr>immediates := rest\<rparr>))"
    and "ran (runTimeout sch i cb (s\<lparr>immediates := rest\<rparr>)) = ran s @ [cb]"
    and "snd ` set (pendingTimeouts s) =
           insert cb (snd ` set (pendingTimeouts (s\<lparr>immediates := rest\<rparr>)))"
    and "snd ` set (pendingTimeouts (runTimeout sch i cb (s\<lparr>immediates := rest\<rparr>))) =
           snd ` set (pendingTimeouts (s\<lparr>immediates := rest\<rparr>)) \<union> set (sch cb)"
proof -
  let ?s0 = "s\<lparr>immediates := rest, ran := ran s @ [cb]\<rparr>"
  let ?s1 = "foldl (\<lambda>s' cb'. snd (setTimeout cb' s')) ?s0 (sch cb)"
  have p: "pendingTimeouts s = (i, cb) # pendingTimeouts ?s0"
    using i by (simp add: pendingTimeouts_def)
  have r: "runTimeout sch i cb (s\<lparr>immediates := rest\<rparr>) =
      ?s1\<lparr>timeoutCallbacks := set_delete (timeoutCallbacks ?s1) i\<rparr>"
    by (simp add: runTimeout_def Let_def)
  have c0: "runningConsistent {i} ?s0"
    using c p by (auto simp: timersConsistent_def runningConsistent_def)
  from scheduleAll [OF c0, of "sch cb"]
  have c1: "runningConsistent {i} ?s1" and r1: "ran ?s1 = ran s @ [cb]"
    and p1: "map snd (pendingTimeouts ?s1) = map snd (pendingTimeouts ?s0) @ sch cb"
    by simp_all
  have pe: "pendingTimeouts (?s1\<lparr>timeoutCallbacks := tc\<rparr>) = pendingTimeouts ?s1" for tc
    by (simp add: pendingTimeouts_def)
  show "timersConsistent (runTimeout sch i cb (s\<lparr>immediates := rest\<rparr>))"
    using c1 unfolding r timersConsistent_def runningConsistent_def pe
    by (auto simp: set_delete_def)
  show "ran (runTimeout sch i cb (s\<lparr>immediates := rest\<rparr>)) = ran s @ [cb]"
    unfolding r using r1 by simp
  show "snd ` set (pendingTimeouts s) =
           insert cb (snd ` set (pendingTimeouts (s\<lparr>immediates := rest\<rparr>)))"
    using p by (simp add: pendingTimeouts_def)
  have "set (map snd (pendingTimeouts ?s1)) = set (map snd (pendingTimeouts ?s0)) \<union> set (sch cb)"
    unfolding p1 by simp
  then show "snd ` set (pendingTimeouts (runTimeout sch i cb (s\<lparr>immediates := rest\<rparr>))) =
           snd ` set (pendingTimeouts (s\<lparr>immediates := rest\<rparr>)) \<union> set (sch cb)"
    unfolding r pe by (simp add: pendingTimeouts_def)
qed

lemma drainInvariant_runTimeout:
  assumes j: "drainInvariant sch s0 s" and i: "immediates s = TimeoutTask i cb # rest"
  shows "drainInvariant sch s0 (runTimeout sch i cb (s\<lparr>immediates := rest\<rparr>))"
proof -
  let ?s2 = "runTimeout sch i cb (s\<lparr>immediates := rest\<rparr>)"
  from j have c: "timersConsistent s" and pre: "prefix (ran s0) (ran s)"
    by (simp_all add: drainInvariant_def)
  note st = runTimeout_step [OF c i]
  from pre have len: "length (ran s0) \<le> length (ran s)"
    by (auto simp: prefix_def)
  then have d: "drop (length (ran s0)) (ran ?s2) = drop (length (ran s0)) (ran s) @ [cb]"
    unfolding st(2) by simp
  from pre have pre2: "prefix (ran s0) (ran ?s2)"
    unfolding st(2) by (auto simp: prefix_def)
  show ?thesis
    using j st(1) pre2
    unfolding drainInvariant_def d st(3) st(4)
    by auto
qed

lemma drainInvariant_immediates:
  assumes "drainInvariant sch s0 s"
    and "concat (map timeoutOf ims) = concat (map timeoutOf (immediates s))"
  shows "drainInvariant sch s0 (s\<lparr>immediates := ims\<rparr>)"
  using assms
  by (simp add: drainInvariant_def timersConsistent_def runningConsistent_def pendingTimeouts_def)

lemma awaitImmediate_invariant:
  "awaitImmediate fuel sch s = Some s1 \<Longrightarrow> drainInvariant sch s0 s \<Longrightarrow> drainInvariant sch s0 s1"
proof (induction fuel arbitrary: s)
  case 0
  then show ?case by simp
next
  case (Suc fuel)
  show ?case
  proof (cases "immediates s")
    case Nil
    with Suc.prems show ?thesis by simp
  next
    case (Cons t rest)
    show ?thesis
    proof (cases t)
      case ResolveTask
      with Cons Suc.prems have "s1 = s\<lparr>immediates := rest\<rparr>"
        by simp
      moreover have "drainInvariant sch s0 (s\<lparr>immediates := rest\<rparr>)"
        using Suc.prems(2) Cons ResolveTask by (intro drainInvariant_immediates) simp_all
      ultimately show ?thesis by simp
    next
      case (TimeoutTask i cb)
      with Cons have im: "immediates s = TimeoutTask i cb # rest"
        by simp
      with Suc.prems have "awaitImmediate fuel sch (runTimeout sch i cb (s\<lparr>immediates := rest\<rparr>)) = Some s1"
        by simp
      then show ?thesis
        using drainInvariant_runTimeout [OF Suc.prems(2) im] by (rule Suc.IH)
    qed
  qed
qed

lemma waitForQueued_invariant:
  "waitForQueued fuel sch s = Some s' \<Longrightarrow> drainInvariant sch s0 s \<Longrightarrow>
     drainInvariant sch s0 s' \<and> timeoutCallbacks s' = []"
proof (induction fuel arbitrary: s)
  case 0
  then show ?case by simp
next
  case (Suc fuel)
  show ?case
  proof (cases "length (timeoutCallbacks s) > 0")
    case False
    with Suc.prems show ?thesis by simp
  next
    case True
    with Suc.prems obtain s1
      where a: "awaitImmediate fuel sch (s\<lparr>immediates := immediates s @ [ResolveTask]\<rparr>) = Some s1"
        and w: "waitForQueued fuel sch s1 = Some s'"
      by (auto split: option.splits)
    have "drainInvariant sch s0 (s\<lparr>immediates := immediates s @ [ResolveTask]\<rparr>)"
      using Suc.prems(2) by (intro drainInvariant_immediates) simp_all
    from awaitImmediate_invariant [OF a this] have "drainInvariant sch s0 s1" .
    with w show ?thesis
      by (rule Suc.IH)
  qed
qed

lemma drainInvariant_start: "timersConsistent s \<Longrightarrow> drainInvariant sch s s"
  by (simp add: drainInvariant_def)

lemma consistent_empty:
  "timersConsistent s \<Longrightarrow> timeoutCallbacks s = [] \<Longrightarrow> pendingTimeouts s = []"
  by (simp add: timersConsistent_def runningConsistent_def)

lemma clearTimeout_consistent:
  assumes "timersConsistent s"
  shows "timersConsistent (clearTimeout i s)"
proof -
  have "concat (map timeoutOf (filter (\<lambda>t. \<not> isTimeoutTask i t) ims)) =
      filter (\<lambda>(j, cb). j \<noteq> i) (concat (map timeoutOf ims))" for ims
  proof (induction ims)
    case Nil
    then show ?case by simp
  next
    case (Cons t ims)
    then show ?case by (cases t) auto
  qed
  then have p: "pendingTimeouts (clearTimeout i s) = filter (\<lambda>(j, cb). j \<noteq> i) (pendingTimeouts s)"
    by (simp add: pendingTimeouts_def clearTimeout_def)
  show ?thesis
    using assms unfolding timersConsistent_def runningConsistent_def p
    by (auto simp: clearTimeout_def set_delete_def distinct_map_filter)
qed


lemma waitForQueued_empty:
  "waitForQueued fuel sch s = Some s' \<Longrightarrow> timeoutCallbacks s' = []"
proof (induction fuel arbitrary: s)
  case 0
  then show ?case by simp
next
  case (Suc fuel)
  show ?case
  proof (cases "length (timeoutCallbacks s) > 0")
    case False
    with Suc.prems show ?thesis by simp
  next
    case True
    with Suc.prems obtain s1 where "waitForQueued fuel sch s1 = Some s'"
      by (auto split: option.splits)
    then show ?thesis
      by (rule Suc.IH)
  qed
qed

lemma runTimeout_plain:
  "sch cb = [] \<Longrightarrow>
     immediates (runTimeout sch i cb s) = immediates s \<and> ran (runTimeout sch i cb s) = ran s @ [cb]"
  by (simp add: runTimeout_def)

lemma awaitImmediate_plain:
  assumes "immediates s = ims @ ResolveTask # rest"
    and "ResolveTask \<notin> set ims"
    and "\<forall>cb \<in> snd ` set (concat (map timeoutOf ims)). sch cb = []"
    and "length ims < fuel"
  shows "\<exists>s1. awaitImmediate fuel sch s = Some s1 \<and> immediates s1 = rest
      \<and> ran s1 = ran s @ map snd (concat (map timeoutOf ims))"
  using assms
proof (induction ims arbitrary: s fuel)
  case Nil
  then obtain f where "fuel = Suc f"
    by (cases fuel) auto
  with Nil show ?case by simp
next
  case (Cons t ims)
  from Cons.prems(4) obtain f where f: "fuel = Suc f" and lf: "length ims < f"
    by (cases fuel) auto
  from Cons.prems(2) obtain i cb where t: "t = TimeoutTask i cb"
    by (cases t) auto
  with Cons.prems(3) have sch: "sch cb = []"
    by simp
  let ?s2 = "runTimeout sch i cb (s\<lparr>immediates := ims @ ResolveTask # rest\<rparr>)"
  from sch runTimeout_plain [of sch cb i "s\<lparr>immediates := ims @ ResolveTask # rest\<rparr>"]
  have im2: "immediates ?s2 = ims @ ResolveTask # rest" and r2: "ran ?s2 = ran s @ [cb]"
    by simp_all
  from Cons.prems(2) Cons.prems(3) have "ResolveTask \<notin> set ims"
    and "\<forall>cb \<in> snd ` set (concat (map timeoutOf ims)). sch cb = []"
    by auto
  from Cons.IH [OF im2 this lf] obtain s1 where "awaitImmediate f sch ?s2 = Some s1"
    and "immediates s1 = rest" and "ran s1 = ran ?s2 @ map snd (concat (map timeoutOf ims))"
    by blast
  then show ?case
    using Cons.prems(1) t f r2 by simp
qed

lemma waitForQueued_returns:
  assumes c: "timersConsistent s"
    and nr: "ResolveTask \<notin> set (immediates s)"
    and sch: "\<forall>cb \<in> snd ` set (pendingTimeouts s). sch cb = []"
    and fuel: "length (immediates s) + 2 \<le> fuel"
  shows "\<exists>s'. waitForQueued fuel sch s = Some s' \<and> ran s' = ran s @ map snd (pendingTimeouts s)"
proof -
  from fuel obtain f where f: "fuel = Suc f" and lf: "length (immediates s) < f"
    by (cases fuel) auto
  show ?thesis
  proof (cases "length (timeoutCallbacks s) > 0")
    case False
    with c have "pendingTimeouts s = []"
      by (simp add: consistent_empty)
    with False f show ?thesis by simp
  next
    case True
    let ?sa = "s\<lparr>immediates := immediates s @ [ResolveTask]\<rparr>"
    have "\<exists>s1. awaitImmediate f sch ?sa = Some s1 \<and> immediates s1 = []
        \<and> ran s1 = ran ?sa @ map snd (concat (map timeoutOf (immediates s)))"
      using nr sch lf by (intro awaitImmediate_plain) (simp_all add: pendingTimeouts_def)
    then obtain s1 where a: "awaitImmediate f sch ?sa = Some s1" and i1: "immediates s1 = []"
      and r1: "ran s1 = ran s @ map snd (pendingTimeouts s)"
      by (auto simp: pendingTimeouts_def)
    have "drainInvariant sch s ?sa"
      using drainInvariant_start [OF c] by (intro drainInvariant_immediates) simp_all
    from awaitImmediate_invariant [OF a this] have "timersConsistent s1"
      by (simp add: drainInvariant_def)
    with i1 have "timeoutCallbacks s1 = []"
      by (simp add: timersConsistent_def runningConsistent_def pendingTimeouts_def)
    moreover from lf obtain f' where "f = Suc f'"
      by (cases f) auto
    ultimately have "waitForQueued f sch s1 = Some s1"
      by simp
    with True a f r1 show ?thesis by simp
  qed
qed

text \<open>
  Claim C9. When \<open>waitForQueued\<close> resolves, the timer set is empty. From a state where the
  timer set is consistent with the immediate queue (the fresh system is, and \<open>setTimeout\<close>
  and \<open>clearTimeout\<close> keep it so, \<open>setTimeout\<close> adding its callback to the waiting ones), no
  timeout is waiting any more when it resolves, every callback that was waiting at the start
  has run during the wait, and so has every callback scheduled by a callback that ran
  during the wait. When the waiting callbacks schedule nothing and no other wait is in the
  queue, the wait does resolve, with fuel two above the length of the queue, after running
  exactly the waiting callbacks in their order.
\<close>

theorem waitForQueued_drains:
  "(waitForQueued fuel sch s = Some s' \<longrightarrow> timeoutCallbacks s' = [])
   \<and> (timersConsistent s \<and> waitForQueued fuel sch s = Some s' \<longrightarrow>
        pendingTimeouts s' = [] \<and> prefix (ran s) (ran s')
        \<and> snd ` set (pendingTimeouts s) \<subseteq> set (drop (length (ran s)) (ran s'))
        \<and> (\<forall>cb \<in> set (drop (length (ran s)) (ran s')).
              set (sch cb) \<subseteq> set (drop (length (ran s)) (ran s'))))
   \<and> timersConsistent emptySys
   \<and> (timersConsistent s \<longrightarrow>
        timersConsistent (snd (setTimeout cb s))
        \<and> pendingTimeouts (snd (setTimeout cb s)) = pendingTimeouts s @ [(fst (setTimeout cb s), cb)]
        \<and> timersConsistent (clearTimeout i s))
   \<and> (timersConsistent s \<and> ResolveTask \<notin> set (immediates s)
        \<and> (\<forall>cb \<in> snd ` set (pendingTimeouts s). sch cb = [])
        \<and> length (immediates s) + 2 \<le> fuel \<longrightarrow>
        (\<exists>s''. waitForQueued fuel sch s = Some s'' \<and> ran s'' = ran s @ map snd (pendingTimeouts s)))"
proof -
  have a: "timeoutCallbacks s' = []" if "waitForQueued fuel sch s = Some s'"
    using that by (rule waitForQueued_empty)
  have b: "pendingTimeouts s' = [] \<and> prefix (ran s) (ran s')
        \<and> snd ` set (pendingTimeouts s) \<subseteq> set (drop (length (ran s)) (ran s'))
        \<and> (\<forall>cb \<in> set (drop (length (ran s)) (ran s')).
              set (sch cb) \<subseteq> set (drop (length (ran s)) (ran s')))"
    if c: "timersConsistent s" and w: "waitForQueued fuel sch s = Some s'"
  proof -
    from waitForQueued_invariant [OF w drainInvariant_start [OF c]]
    have j: "drainInvariant sch s s'" and e: "timeoutCallbacks s' = []"
      by simp_all
    from j have "timersConsistent s'"
      by (simp add: drainInvariant_def)
    from consistent_empty [OF this e] have "pendingTimeouts s' = []" .
    with j show ?thesis
      by (simp add: drainInvariant_def)
  qed
  have c: "timersConsistent emptySys"
    by (simp add: timersConsistent_def runningConsistent_def pendingTimeouts_def emptySys_def)
  have d: "timersConsistent (snd (setTimeout cb s))
        \<and> pendingTimeouts (snd (setTimeout cb s)) = pendingTimeouts s @ [(fst (setTimeout cb s), cb)]
        \<and> timersConsistent (clearTimeout i s)"
    if "timersConsistent s"
    using that setTimeout_consistent [of "{}" s cb] clearTimeout_consistent [of s i]
    by (simp add: timersConsistent_def setTimeout_fields) (simp add: setTimeout_def Let_def)
  have e: "\<exists>s''. waitForQueued fuel sch s = Some s'' \<and> ran s'' = ran s @ map snd (pendingTimeouts s)"
    if "timersConsistent s" "ResolveTask \<notin> set (immediates s)"
      "\<forall>cb \<in> snd ` set (pendingTimeouts s). sch cb = []" "length (immediates s) + 2 \<le> fuel"
    using that by (rule waitForQueued_returns)
  from a b c d e show ?thesis
    by blast
qed

theorem waitForQueued_drains_witness:
  "timersConsistent timersSys
   \<and> pendingTimeouts timersSys = [(0, 1), (1, 2)]
   \<and> waitForQueued 4 chainSchedule timersSys = Some drainedSys
   \<and> timeoutCallbacks drainedSys = []
   \<and> pendingTimeouts drainedSys = []
   \<and> ran drainedSys = [1, 2, 3]
   \<and> map_option ran (waitForQueued 4 (\<lambda>cb. []) timersSys) = Some [1, 2]"
proof -
  have w: "waitForQueued 4 chainSchedule timersSys = Some drainedSys"
    by code_simp
  have r0: "ran timersSys = []" and r: "ran drainedSys = [1, 2, 3]"
    by code_simp+
  have i: "fst (setTimeout 1 emptySys) = 0" "fst (setTimeout 2 (snd (setTimeout 1 emptySys))) = 1"
    by code_simp+
  have p0: "pendingTimeouts emptySys = []"
    by (simp add: pendingTimeouts_def emptySys_def)
  have e: "timersConsistent emptySys"
    using waitForQueued_drains [of 4 chainSchedule emptySys drainedSys 1 0] by blast
  have step: "timersConsistent (snd (setTimeout cb s))
      \<and> pendingTimeouts (snd (setTimeout cb s)) = pendingTimeouts s @ [(fst (setTimeout cb s), cb)]"
    if "timersConsistent s" for s cb
    using that waitForQueued_drains [of 4 chainSchedule s drainedSys cb 0] by blast
  from step [OF e, of 1] have c1: "timersConsistent (snd (setTimeout 1 emptySys))"
    and p1: "pendingTimeouts (snd (setTimeout 1 emptySys)) = [(0, 1)]"
    unfolding i p0 by simp_all
  from step [OF c1, of 2]
  have c2: "timersConsistent timersSys" and p2: "pendingTimeouts timersSys = [(0, 1), (1, 2)]"
    unfolding i p1 timersSys_def by simp_all
  from waitForQueued_drains [of 4 chainSchedule timersSys drainedSys 0 0] c2 w
  have "timeoutCallbacks drainedSys = []" and "pendingTimeouts drainedSys = []"
    by blast+
  moreover have n: "ResolveTask \<notin> set (immediates timersSys)" "length (immediates timersSys) + 2 \<le> 4"
    by code_simp+
  from waitForQueued_drains [of 4 "\<lambda>cb. []" timersSys drainedSys 0 0] c2 n
  obtain s'' where "waitForQueued 4 (\<lambda>cb. []) timersSys = Some s''"
    and "ran s'' = ran timersSys @ map snd (pendingTimeouts timersSys)"
    by auto
  then have "map_option ran (waitForQueued 4 (\<lambda>cb. []) timersSys) = Some [1, 2]"
    by (simp add: r0 p2)
  ultimately show ?thesis
    using c2 p2 w r
    by simp
qed

end
